theory Spec2Isabelle
  imports Complex_Main
begin

section \<open>Arrays\<close>

text \<open>
  The program is numerical Python on JAX arrays (\<^verbatim>\<open>src/s4/s4.py\<close>).  Its floating-point
  scalars are modelled by the exact real and complex numbers, a one-dimensional array by a
  list, and a two-dimensional array by the list of its rows.  Library routines whose code
  is not part of the repository and that have no closed form (matrix inversion and the
  eigendecomposition) are parameters of the functions that call them.
\<close>

datatype error = DimensionMismatch | ZeroDivision | EmptyInput

type_synonym 'a mat = "'a list list"

definition nrows :: "'a mat \<Rightarrow> nat" where
  "nrows A = length A"

definition ncols :: "'a mat \<Rightarrow> nat" where
  "ncols A = (case A of [] \<Rightarrow> 0 | r # _ \<Rightarrow> length r)"

definition is_mat :: "nat \<Rightarrow> nat \<Rightarrow> 'a mat \<Rightarrow> bool" where
  "is_mat r c A \<longleftrightarrow> length A = r \<and> list_all (\<lambda>row. length row = c) A"

definition mk_mat :: "nat \<Rightarrow> nat \<Rightarrow> (nat \<Rightarrow> nat \<Rightarrow> 'a) \<Rightarrow> 'a mat" where
  "mk_mat r c f = map (\<lambda>i. map (f i) [0..<c]) [0..<r]"

text \<open>\<^verbatim>\<open>np.eye(N)\<close>, \<^verbatim>\<open>np.diag(d)\<close> of a vector, \<^verbatim>\<open>np.tril(A, k)\<close>.\<close>

definition eye :: "nat \<Rightarrow> 'a::zero_neq_one mat" where
  "eye N = mk_mat N N (\<lambda>i j. if i = j then 1 else 0)"

definition diag_mat :: "'a::zero list \<Rightarrow> 'a mat" where
  "diag_mat d = mk_mat (length d) (length d) (\<lambda>i j. if i = j then d ! i else 0)"

definition tril :: "'a::zero mat \<Rightarrow> int \<Rightarrow> 'a mat" where
  "tril A k = mk_mat (nrows A) (ncols A) (\<lambda>i j. if int j \<le> int i + k then A ! i ! j else 0)"

text \<open>\<^verbatim>\<open>p[:, np.newaxis] * q[np.newaxis, :]\<close>: the outer product of two vectors.\<close>

definition outer :: "'a::times list \<Rightarrow> 'a list \<Rightarrow> 'a mat" where
  "outer p q = map (\<lambda>a. map (\<lambda>b. a * b) q) p"

text \<open>An elementwise operation on two arrays of the same shape, and scaling by a scalar.\<close>

definition ew2 :: "('a \<Rightarrow> 'b \<Rightarrow> 'c) \<Rightarrow> 'a mat \<Rightarrow> 'b mat \<Rightarrow> 'c mat" where
  "ew2 f A B = map2 (map2 f) A B"

definition mat_scale :: "'a::times \<Rightarrow> 'a mat \<Rightarrow> 'a mat" where
  "mat_scale s A = map (map (\<lambda>a. s * a)) A"

definition mat_neg :: "'a::uminus mat \<Rightarrow> 'a mat" where
  "mat_neg A = map (map uminus) A"

section \<open>The HiPPO matrix\<close>

text \<open>
  \<^verbatim>\<open>make_HiPPO(N)\<close>: the nested list comprehension over \<^verbatim>\<open>range(1, N + 1)\<close>, row index
  \<open>n\<close> outside and column index \<open>k\<close> inside.
\<close>

definition make_HiPPO :: "nat \<Rightarrow> real mat" where
  "make_HiPPO N =
     map (\<lambda>n. map (\<lambda>k. if n > k then sqrt (2 * real n + 1) * sqrt (2 * real k + 1)
                         else (if n = k then real n + 1 else 0))
                   [1..<N + 1])
         [1..<N + 1]"

text \<open>
  \<^verbatim>\<open>make_DPLR_HiPPO(N)\<close>.  The eigendecomposition \<^verbatim>\<open>eig_cpu\<close> (a jitted
  \<^verbatim>\<open>jax.numpy.linalg.eig\<close>) is a parameter: it returns the vector of eigenvalues and the
  matrix whose columns are the eigenvectors.
\<close>

definition hippo_p :: "nat \<Rightarrow> real list" where
  "hippo_p N = map (\<lambda>n. sqrt (2 * real n + 1)) [1..<N + 1]"

definition dplr_hippo :: "nat \<Rightarrow> real mat" where
  "dplr_hippo N =
     (let p = hippo_p N; q = p; pq = outer p q
      in ew2 (-) (mat_neg (tril pq (- 1))) (diag_mat (map (\<lambda>n. real n + 1) [1..<N + 1])))"

definition dplr_S :: "nat \<Rightarrow> real mat" where
  "dplr_S N =
     (let p = hippo_p N; q = p; pq = outer p q
      in ew2 (+) (dplr_hippo N) (ew2 (+) (mat_scale 0.5 pq) (mat_scale 0.5 (eye N))))"

definition make_DPLR_HiPPO ::
  "(real mat \<Rightarrow> complex list \<times> complex mat) \<Rightarrow> nat \<Rightarrow>
     real mat \<times> complex list \<times> real list \<times> real list \<times> complex mat" where
  "make_DPLR_HiPPO eig_cpu N =
     (let p = hippo_p N; q = p;
          hippo = dplr_hippo N;
          S = dplr_S N;
          (diag, v) = eig_cpu S;
          diag = map (\<lambda>d. d - 0.5) diag
      in (hippo, diag, map (\<lambda>x. 0.5 * x) p, q, v))"

text \<open>
  \<^verbatim>\<open>NaiveSSMInit(N)\<close> fixes the fields \<^verbatim>\<open>A\<close> and \<^verbatim>\<open>N\<close> of the naive layer; the other
  fields are supplied later by the caller.
\<close>

record naive_init =
  naive_A :: "real mat"
  naive_N :: nat

definition NaiveSSMInit :: "nat \<Rightarrow> naive_init" where
  "NaiveSSMInit N = \<lparr>naive_A = make_HiPPO N, naive_N = N\<rparr>"

text \<open>
  A complex number \<open>ev\<close> is an eigenvalue of the real square matrix \<open>A\<close> with eigenvector
  \<open>v\<close>: \<open>v\<close> is not the zero vector and \<open>A v = ev v\<close>.
\<close>

definition eigenpair :: "real mat \<Rightarrow> complex \<Rightarrow> complex list \<Rightarrow> bool" where
  "eigenpair A ev v \<longleftrightarrow>
     length v = length A \<and> (\<exists>i<length v. v ! i \<noteq> 0) \<and>
     (\<forall>i<length A. (\<Sum>j<length v. complex_of_real (A ! i ! j) * v ! j) = ev * v ! i)"

text \<open>
  What the callers rely on from the eigendecomposition of an \<open>N \<times> N\<close> matrix: \<open>N\<close> eigenvalues
  \<open>d\<close>, and an \<open>N \<times> N\<close> matrix \<open>V\<close> whose \<open>k\<close>-th column is an eigenvector for \<open>d ! k\<close>.
\<close>

definition col :: "'a mat \<Rightarrow> nat \<Rightarrow> 'a list" where
  "col V k = map (\<lambda>row. row ! k) V"

definition eig_result :: "real mat \<Rightarrow> complex list \<times> complex mat \<Rightarrow> bool" where
  "eig_result S dv \<longleftrightarrow>
     (case dv of (d, V) \<Rightarrow>
        length d = length S \<and> is_mat (length S) (length S) V \<and>
        list_all (\<lambda>k. eigenpair S (d ! k) (col V k)) [0..<length S])"

text \<open>An eigendecomposition of the \<open>2 \<times> 2\<close> matrices \<open>[[0, a], [- a, 0]]\<close>, for the examples.\<close>

definition eig2 :: "real mat \<Rightarrow> complex list \<times> complex mat" where
  "eig2 S = (let a = complex_of_real (S ! 0 ! 1) in ([\<i> * a, - (\<i> * a)], [[1, 1], [\<i>, - \<i>]]))"

section \<open>Errors, non-finite results and shapes\<close>

text \<open>
  A Python exception is the left summand of a result.  JAX raises nothing when it divides by
  zero or inverts a singular matrix: the result then holds \<^verbatim>\<open>inf\<close> or \<^verbatim>\<open>nan\<close> entries,
  and every later operation on it yields such entries again.  \<open>NonFinite\<close> stands for a
  result of this kind; \<open>Finite x\<close> is a result whose entries are the exact numbers \<open>x\<close>.
\<close>

datatype 'a fl = Finite 'a | NonFinite

definition bind_err :: "error + 'a \<Rightarrow> ('a \<Rightarrow> error + 'b) \<Rightarrow> error + 'b" where
  "bind_err m f = (case m of Inl e \<Rightarrow> Inl e | Inr x \<Rightarrow> f x)"

definition fl_bind :: "'a fl \<Rightarrow> ('a \<Rightarrow> 'b fl) \<Rightarrow> 'b fl" where
  "fl_bind m f = (case m of NonFinite \<Rightarrow> NonFinite | Finite x \<Rightarrow> f x)"

definition fl_map :: "('a \<Rightarrow> 'b) \<Rightarrow> 'a fl \<Rightarrow> 'b fl" where
  "fl_map f m = fl_bind m (\<lambda>x. Finite (f x))"

definition fl_op2 :: "('a \<Rightarrow> 'b \<Rightarrow> 'c) \<Rightarrow> 'a fl \<Rightarrow> 'b fl \<Rightarrow> 'c fl" where
  "fl_op2 f x y = fl_bind x (\<lambda>a. fl_bind y (\<lambda>b. Finite (f a b)))"

definition fl_div :: "'a::field \<Rightarrow> 'a \<Rightarrow> 'a fl" where
  "fl_div a b = (if b = 0 then NonFinite else Finite (a / b))"

text \<open>The results of a list of computations, or the first exception among them.\<close>

fun sequence_err :: "(error + 'a) list \<Rightarrow> error + 'a list" where
  "sequence_err [] = Inr []"
| "sequence_err (m # ms) =
     bind_err m (\<lambda>x. bind_err (sequence_err ms) (\<lambda>xs. Inr (x # xs)))"

text \<open>An array with one non-finite entry is non-finite.\<close>

fun sequence_fl :: "'a fl list \<Rightarrow> 'a list fl" where
  "sequence_fl [] = Finite []"
| "sequence_fl (m # ms) = fl_bind m (\<lambda>x. fl_bind (sequence_fl ms) (\<lambda>xs. Finite (x # xs)))"

text \<open>
  NumPy broadcasting of one dimension, of two vectors and of two matrices: sizes agree when
  they are equal or one of them is 1.
\<close>

definition bdim :: "nat \<Rightarrow> nat \<Rightarrow> nat option" where
  "bdim a b = (if a = b then Some a else if a = 1 then Some b else if b = 1 then Some a else None)"

definition vbcast :: "('a \<Rightarrow> 'b \<Rightarrow> 'c) \<Rightarrow> 'a list \<Rightarrow> 'b list \<Rightarrow> error + 'c list" where
  "vbcast f a b =
     (case bdim (length a) (length b) of
        None \<Rightarrow> Inl DimensionMismatch
      | Some n \<Rightarrow> Inr (map (\<lambda>i. f (a ! (if length a = 1 then 0 else i))
                                 (b ! (if length b = 1 then 0 else i))) [0..<n]))"

definition bcast2 :: "('a \<Rightarrow> 'b \<Rightarrow> 'c) \<Rightarrow> 'a mat \<Rightarrow> 'b mat \<Rightarrow> error + 'c mat" where
  "bcast2 f A B =
     (case (bdim (nrows A) (nrows B), bdim (ncols A) (ncols B)) of
        (Some r, Some c) \<Rightarrow>
          Inr (mk_mat r c (\<lambda>i j. f (A ! (if nrows A = 1 then 0 else i) ! (if ncols A = 1 then 0 else j))
                                   (B ! (if nrows B = 1 then 0 else i) ! (if ncols B = 1 then 0 else j))))
      | _ \<Rightarrow> Inl DimensionMismatch)"

text \<open>The matrix product \<^verbatim>\<open>A @ B\<close> of two-dimensional arrays, and of a matrix with a vector.\<close>

definition matmul :: "'a::semiring_0 mat \<Rightarrow> 'a mat \<Rightarrow> error + 'a mat" where
  "matmul A B =
     (if ncols A \<noteq> nrows B then Inl DimensionMismatch
      else Inr (mk_mat (nrows A) (ncols B) (\<lambda>i j. \<Sum>k<ncols A. A ! i ! k * B ! k ! j)))"

definition matvec :: "'a::semiring_0 mat \<Rightarrow> 'a list \<Rightarrow> error + 'a list" where
  "matvec A v =
     (if ncols A \<noteq> length v then Inl DimensionMismatch
      else Inr (map (\<lambda>i. \<Sum>k<ncols A. A ! i ! k * v ! k) [0..<nrows A]))"

text \<open>\<^verbatim>\<open>jax.numpy.linalg.matrix_power(A, n)\<close> for \<open>n \<ge> 0\<close>; the argument must be square.\<close>

fun matrix_power :: "'a::semiring_1 mat \<Rightarrow> nat \<Rightarrow> error + 'a mat" where
  "matrix_power A 0 = (if nrows A \<noteq> ncols A then Inl DimensionMismatch else Inr (eye (nrows A)))"
| "matrix_power A (Suc n) = bind_err (matrix_power A n) (\<lambda>P. matmul P A)"

text \<open>\<^verbatim>\<open>M.ravel()\<close>, \<^verbatim>\<open>M.reshape()\<close> to a scalar, and \<^verbatim>\<open>M.conj().T\<close>.\<close>

definition ravel :: "'a mat \<Rightarrow> 'a list" where
  "ravel M = concat M"

definition reshape_scalar :: "'a mat \<Rightarrow> error + 'a" where
  "reshape_scalar M = (case M of [[x]] \<Rightarrow> Inr x | _ \<Rightarrow> Inl DimensionMismatch)"

definition conj_T :: "complex mat \<Rightarrow> complex mat" where
  "conj_T M = mk_mat (ncols M) (nrows M) (\<lambda>i j. cnj (M ! j ! i))"

section \<open>Discretization\<close>

text \<open>
  \<^verbatim>\<open>discretize(A, B, C, step)\<close>.  The matrix inversion \<^verbatim>\<open>jax.numpy.linalg.inv\<close> is the
  parameter \<open>linalg_inv\<close>; it is called on a square matrix or raises, and it returns an array of the
  shape of its argument, finite or not.  On a non-finite inverse the two products still check
  their shapes, and their values are non-finite.
\<close>

definition discretize ::
  "('a::field mat \<Rightarrow> 'a mat fl) \<Rightarrow> 'a mat \<Rightarrow> 'a mat \<Rightarrow> 'a mat \<Rightarrow> 'a \<Rightarrow>
     error + ('a mat fl \<times> 'a mat fl \<times> 'a mat)" where
  "discretize linalg_inv A B C step =
     (let I = eye (nrows A) in
      bind_err (bcast2 (-) I (mat_scale (step / 2) A)) (\<lambda>X.
      if nrows X \<noteq> ncols X then Inl DimensionMismatch
      else
        bind_err (bcast2 (+) I (mat_scale (step / 2) A)) (\<lambda>Y.
        case linalg_inv X of
          Finite BL \<Rightarrow>
            bind_err (matmul BL Y) (\<lambda>Abar.
            bind_err (matmul (map (map (\<lambda>a. a * step)) BL) B) (\<lambda>Bbar.
            Inr (Finite Abar, Finite Bbar, C)))
        | NonFinite \<Rightarrow>
            bind_err (matmul X Y) (\<lambda>_.
            bind_err (matmul X B) (\<lambda>_.
            Inr (NonFinite, NonFinite, C))))))"

text \<open>
  The same function with the state of its local variables made explicit: the first component
  lists, in order, the variables assigned before \<^verbatim>\<open>discretize\<close> returned or raised, with
  their values; the second component is the outcome.
\<close>

definition discretize_trace ::
  "('a::field mat \<Rightarrow> 'a mat fl) \<Rightarrow> 'a mat \<Rightarrow> 'a mat \<Rightarrow> 'a mat \<Rightarrow> 'a \<Rightarrow>
     (string \<times> 'a mat fl) list \<times> (error + ('a mat fl \<times> 'a mat fl \<times> 'a mat))" where
  "discretize_trace linalg_inv A B C step =
     (let I = eye (nrows A);
          s1 = [(''I'', Finite I)]
      in case bcast2 (-) I (mat_scale (step / 2) A) of
           Inl e \<Rightarrow> (s1, Inl e)
         | Inr X \<Rightarrow>
             if nrows X \<noteq> ncols X then (s1, Inl DimensionMismatch)
             else
               let BL = linalg_inv X;
                   s2 = s1 @ [(''BL'', BL)]
               in case bcast2 (+) I (mat_scale (step / 2) A) of
                    Inl e \<Rightarrow> (s2, Inl e)
                  | Inr Y \<Rightarrow>
                      (case BL of
                         Finite BL \<Rightarrow>
                           (case matmul BL Y of
                              Inl e \<Rightarrow> (s2, Inl e)
                            | Inr Abar \<Rightarrow>
                                let s3 = s2 @ [(''Abar'', Finite Abar)]
                                in case matmul (map (map (\<lambda>a. a * step)) BL) B of
                                     Inl e \<Rightarrow> (s3, Inl e)
                                   | Inr Bbar \<Rightarrow>
                                       (s3 @ [(''Bbar'', Finite Bbar)],
                                        Inr (Finite Abar, Finite Bbar, C)))
                       | NonFinite \<Rightarrow>
                           (case matmul X Y of
                              Inl e \<Rightarrow> (s2, Inl e)
                            | Inr _ \<Rightarrow>
                                let s3 = s2 @ [(''Abar'', NonFinite)]
                                in case matmul X B of
                                     Inl e \<Rightarrow> (s3, Inl e)
                                   | Inr _ \<Rightarrow>
                                       (s3 @ [(''Bbar'', NonFinite)],
                                        Inr (NonFinite, NonFinite, C)))))"

text \<open>A square matrix is singular when it sends some non-zero vector to zero.\<close>

definition singular_mat :: "'a::field mat \<Rightarrow> bool" where
  "singular_mat X \<longleftrightarrow>
     (\<exists>v. length v = length X \<and> (\<exists>j<length X. v ! j \<noteq> 0) \<and>
          (\<forall>i<length X. (\<Sum>j<length X. X ! i ! j * v ! j) = 0))"

text \<open>The inverse of a \<open>1 \<times> 1\<close> array as JAX computes it, for the examples.\<close>

definition inv_1x1 :: "'a::field mat \<Rightarrow> 'a mat fl" where
  "inv_1x1 X = (case X of [[x]] \<Rightarrow> (if x = 0 then NonFinite else Finite [[1 / x]]) | _ \<Rightarrow> NonFinite)"

section \<open>The convolution kernel and its generating function\<close>

text \<open>\<^verbatim>\<open>K_conv(A, B, C, L)\<close>: the list of the scalars \<^verbatim>\<open>C @ matrix_power(A, l) @ B\<close>.\<close>

definition K_conv :: "'a::semiring_1 mat \<Rightarrow> 'a mat \<Rightarrow> 'a mat \<Rightarrow> nat \<Rightarrow> error + 'a list" where
  "K_conv A B C L =
     sequence_err (map (\<lambda>l. bind_err (matrix_power A l) (\<lambda>P.
                              bind_err (matmul C P) (\<lambda>CP.
                              bind_err (matmul CP B) reshape_scalar))) [0..<L])"

text \<open>
  \<^verbatim>\<open>K_gen_simple(*ssm, L)\<close> computes the kernel and returns the function
  \<^verbatim>\<open>lambda z: np.sum(K * (z ** np.arange(L)))\<close>, here \<open>poly_gen K L\<close>.
\<close>

definition poly_gen :: "complex list \<Rightarrow> nat \<Rightarrow> complex \<Rightarrow> error + complex fl" where
  "poly_gen K L z =
     bind_err (vbcast (*) K (map (\<lambda>l. z ^ l) [0..<L])) (\<lambda>terms. Inr (Finite (sum_list terms)))"

definition K_gen_simple ::
  "complex mat \<Rightarrow> complex mat \<Rightarrow> complex mat \<Rightarrow> nat \<Rightarrow> error + (complex \<Rightarrow> error + complex fl)" where
  "K_gen_simple A B C L = bind_err (K_conv A B C L) (\<lambda>K. Inr (poly_gen K L))"

text \<open>
  \<^verbatim>\<open>convFromGen(gen, L)\<close>.  The division by \<open>L\<close> in the exponent is a division of Python
  numbers and raises for \<open>L = 0\<close>.  \<^verbatim>\<open>np.fft.ifft(x, L)\<close> of \<open>L\<close> values is the inverse discrete
  Fourier transform \<open>out[m] = (1 / L) \<Sum>k<L. x[k] exp (2 \<pi> \<i> k m / L)\<close>.
\<close>

definition roots_of_unity :: "nat \<Rightarrow> complex list" where
  "roots_of_unity L = map (\<lambda>k. exp ((2 * \<i> * complex_of_real pi / of_nat L) * of_nat k)) [0..<L]"

definition ifft :: "complex list \<Rightarrow> complex list" where
  "ifft x =
     (let n = length x
      in map (\<lambda>m. (\<Sum>k<n. x ! k * exp (2 * complex_of_real pi * \<i> * of_nat k * of_nat m / of_nat n))
                   / of_nat n) [0..<n])"

definition convFromGen :: "(complex \<Rightarrow> error + complex fl) \<Rightarrow> nat \<Rightarrow> error + real list fl" where
  "convFromGen gen L =
     (if L = 0 then Inl ZeroDivision
      else
        let r = roots_of_unity L in
        bind_err (sequence_err (map gen r)) (\<lambda>atRoots.
        Inr (fl_bind (sequence_fl atRoots) (\<lambda>atRoots.
          let out = ifft atRoots;
              order = map (\<lambda>i. if i = 0 then i else L - i) [0..<L]
          in Finite (map (\<lambda>i. Re (out ! i)) order)))))"

text \<open>
  \<^verbatim>\<open>cauchy_dot(v, omega, lambd)\<close>, the sum of \<open>v[i] / (omega - lambd[i])\<close>; the two vectors
  must have the same length.
\<close>

definition cauchy_dot :: "complex list \<Rightarrow> complex fl \<Rightarrow> complex list \<Rightarrow> error + complex fl" where
  "cauchy_dot v omega lambd =
     (if length v \<noteq> length lambd then Inl DimensionMismatch
      else Inr (fl_bind omega (\<lambda>w.
             fl_map sum_list (sequence_fl (map (\<lambda>i. fl_div (v ! i) (w - lambd ! i)) [0..<length v])))))"

text \<open>
  \<^verbatim>\<open>K_gen_DPLR(Lambda, p, q, B, Ct, step)\<close> returns the function \<^verbatim>\<open>gen\<close>.  \<open>B\<close> is an
  \<open>N \<times> 1\<close> array, the other arrays are vectors.  \<^verbatim>\<open>step\<close> is a Python number, so
  \<^verbatim>\<open>2.0 / step\<close> raises for \<open>step = 0\<close>.
\<close>

definition K_gen_DPLR ::
  "complex list \<Rightarrow> complex list \<Rightarrow> complex list \<Rightarrow> complex mat \<Rightarrow> complex list \<Rightarrow> real \<Rightarrow>
     complex \<Rightarrow> error + complex fl" where
  "K_gen_DPLR Lambda p q B Ct step =
     (let aterm = (map cnj Ct, map cnj q);
          bterm = (ravel B, p)
      in (\<lambda>z.
        if step = 0 then Inl ZeroDivision
        else
          let g = fl_map (\<lambda>r. (2 / complex_of_real step) * r) (fl_div (1 - z) (1 + z));
              c = fl_div 2 (1 + z);
              k = (\<lambda>a. cauchy_dot a g Lambda)
          in bind_err (bind_err (vbcast (*) (fst aterm) (fst bterm)) k) (\<lambda>k00.
             bind_err (bind_err (vbcast (*) (fst aterm) (snd bterm)) k) (\<lambda>k01.
             bind_err (bind_err (vbcast (*) (snd aterm) (fst bterm)) k) (\<lambda>k10.
             bind_err (bind_err (vbcast (*) (snd aterm) (snd bterm)) k) (\<lambda>k11.
             Inr (fl_op2 (*) c
                    (fl_op2 (-) k00
                       (fl_op2 (*)
                          (fl_op2 (*) k01 (fl_bind (fl_op2 (+) (Finite 1) k11) (fl_div 1)))
                          k10)))))))))"

section \<open>The sequence transformer\<close>

text \<open>
  \<^verbatim>\<open>jax.scipy.signal.convolve(u, K, mode="full")\<close> on one-dimensional arrays: entry \<open>n\<close> of the
  result is the sum of the products \<open>u[m] K[n - m]\<close> over the indices that exist, for
  \<open>n < len(u) + len(K) - 1\<close>.  The library rejects an empty operand.
\<close>

definition convolve_full :: "real list \<Rightarrow> real list \<Rightarrow> error + real list" where
  "convolve_full u K =
     (if u = [] \<or> K = [] then Inl EmptyInput
      else Inr (map (\<lambda>n. \<Sum>m\<le>n. if m < length u \<and> n - m < length K then u ! m * K ! (n - m) else 0)
                    [0..<length u + length K - 1]))"

text \<open>\<^verbatim>\<open>nonCircularConvolution(u, K)\<close>: the full convolution cut to the length of \<open>u\<close>.\<close>

definition nonCircularConvolution :: "real list \<Rightarrow> real list \<Rightarrow> error + real list" where
  "nonCircularConvolution u K =
     (case convolve_full u K of Inl e \<Rightarrow> Inl e | Inr full \<Rightarrow> Inr (take (length u) full))"

text \<open>
  \<^verbatim>\<open>S4Layer.__call__(u)\<close> for one channel, with the layer's kernel \<open>K\<close> and its parameter \<open>D\<close>,
  an array of shape \<open>(1,)\<close>: \<^verbatim>\<open>nonCircularConvolution(u, self.K) + self.D * u\<close>.  The product
  and the sum are array operations: they broadcast, and raise when the shapes do not agree.
\<close>

definition S4Layer_call :: "real list \<Rightarrow> real \<Rightarrow> real list \<Rightarrow> error + real list" where
  "S4Layer_call K D u =
     bind_err (nonCircularConvolution u K) (\<lambda>c.
     bind_err (vbcast (*) [D] u) (\<lambda>Du.
     vbcast (+) c Du))"

section \<open>Auxiliary definitions for the statements\<close>

text \<open>
  The operator \<^verbatim>\<open>np.diag(Lambda) - p[:, np.newaxis] @ q[:, np.newaxis].conj().T\<close> that
  \<^verbatim>\<open>S4LayerInit\<close> passes to the layer as \<^verbatim>\<open>A\<close>.
\<close>

definition dplr_matrix :: "complex list \<Rightarrow> complex list \<Rightarrow> complex list \<Rightarrow> complex mat" where
  "dplr_matrix Lambda p q =
     mk_mat (length Lambda) (length Lambda)
       (\<lambda>i j. (if i = j then Lambda ! i else 0) - p ! i * cnj (q ! j))"

text \<open>The matrices \<open>I - (step / 2) A\<close> and \<open>I + (step / 2) A\<close> of size \<open>N\<close>, by their entries.\<close>

definition disc_X :: "nat \<Rightarrow> 'a::field mat \<Rightarrow> 'a \<Rightarrow> 'a mat" where
  "disc_X N A step = mk_mat N N (\<lambda>i j. (if i = j then 1 else 0) - step / 2 * A ! i ! j)"

definition disc_Y :: "nat \<Rightarrow> 'a::field mat \<Rightarrow> 'a \<Rightarrow> 'a mat" where
  "disc_Y N A step = mk_mat N N (\<lambda>i j. (if i = j then 1 else 0) + step / 2 * A ! i ! j)"

text \<open>The primitive \<open>L\<close>-th root of unity \<open>exp (2 \<pi> \<i> / L)\<close>.\<close>

definition unity_root :: "nat \<Rightarrow> complex" where
  "unity_root L = cis (2 * pi / real L)"

text \<open>
  The change of variable \<open>g(z)\<close>, the factor \<open>c(z)\<close> and the Cauchy dot product
  \<open>k(u, v) = \<Sum>i. u[i] v[i] / (g - \<Lambda>[i])\<close> of the specification, and the combination of four of
  them in which \<open>u\<close> is the vector paired with \<open>B\<close> and \<open>p\<close>.
\<close>

definition bilinear_g :: "real \<Rightarrow> complex \<Rightarrow> complex" where
  "bilinear_g step z = (2 / complex_of_real step) * ((1 - z) / (1 + z))"

definition bilinear_c :: "complex \<Rightarrow> complex" where
  "bilinear_c z = 2 / (1 + z)"

definition cauchy_k :: "complex \<Rightarrow> complex list \<Rightarrow> complex list \<Rightarrow> complex list \<Rightarrow> complex" where
  "cauchy_k g Lambda u v = (\<Sum>i<length Lambda. u ! i * v ! i / (g - Lambda ! i))"

definition dplr_formula ::
  "complex list \<Rightarrow> complex list \<Rightarrow> complex list \<Rightarrow> complex list \<Rightarrow> complex list \<Rightarrow> real \<Rightarrow>
     complex \<Rightarrow> complex" where
  "dplr_formula Lambda p q b u step z =
     (let g = bilinear_g step z;
          k = cauchy_k g Lambda
      in bilinear_c z * (k u b - k u p * (1 / (1 + k (map cnj q) p)) * k (map cnj q) b))"

text \<open>
  The product of an \<open>N \<times> N\<close> matrix with a vector given by its entries, the powers of a matrix
  by their entries, and the scalar \<open>C A\<^sup>l B\<close>.
\<close>

definition mv :: "nat \<Rightarrow> complex mat \<Rightarrow> (nat \<Rightarrow> complex) \<Rightarrow> nat \<Rightarrow> complex" where
  "mv N A v i = (\<Sum>j<N. A ! i ! j * v j)"

fun pw :: "nat \<Rightarrow> complex mat \<Rightarrow> nat \<Rightarrow> complex mat" where
  "pw N A 0 = eye N"
| "pw N A (Suc l) = mk_mat N N (\<lambda>i j. \<Sum>k<N. pw N A l ! i ! k * A ! k ! j)"

definition kernel_entry :: "nat \<Rightarrow> complex mat \<Rightarrow> complex mat \<Rightarrow> complex mat \<Rightarrow> nat \<Rightarrow> complex" where
  "kernel_entry N A B C l = (\<Sum>i<N. C ! 0 ! i * mv N (pw N A l) (\<lambda>j. B ! j ! 0) i)"

section \<open>Indexing lemmas\<close>

lemma mk_mat_length [simp]: "length (mk_mat r c f) = r"
  by (simp add: mk_mat_def)

lemma mk_mat_row_length [simp]: "i < r \<Longrightarrow> length (mk_mat r c f ! i) = c"
  by (simp add: mk_mat_def)

lemma mk_mat_nth [simp]: "i < r \<Longrightarrow> j < c \<Longrightarrow> mk_mat r c f ! i ! j = f i j"
  by (simp add: mk_mat_def)

lemma is_mat_mk_mat [simp]: "is_mat r c (mk_mat r c f)"
  by (simp add: is_mat_def mk_mat_def list_all_iff)

lemma is_mat_row: "is_mat r c A \<Longrightarrow> i < r \<Longrightarrow> length (A ! i) = c"
  by (simp add: is_mat_def list_all_length)

lemma is_mat_ncols: "is_mat r c A \<Longrightarrow> 0 < r \<Longrightarrow> ncols A = c"
  by (cases A) (auto simp: is_mat_def ncols_def)

lemma mat_eqI:
  assumes "is_mat r c A" "is_mat r c B"
    and "\<And>i j. i < r \<Longrightarrow> j < c \<Longrightarrow> A ! i ! j = B ! i ! j"
  shows "A = B"
proof (rule nth_equalityI)
  show "length A = length B" using assms(1,2) by (simp add: is_mat_def)
next
  fix i assume i: "i < length A"
  then have ir: "i < r" using assms(1) by (simp add: is_mat_def)
  show "A ! i = B ! i"
  proof (rule nth_equalityI)
    show "length (A ! i) = length (B ! i)"
      using is_mat_row [OF assms(1) ir] is_mat_row [OF assms(2) ir] by simp
  next
    fix j assume "j < length (A ! i)"
    then have "j < c" using is_mat_row [OF assms(1) ir] by simp
    then show "A ! i ! j = B ! i ! j" using assms(3) ir by simp
  qed
qed

lemma make_HiPPO_is_mat: "is_mat N N (make_HiPPO N)"
  by (simp add: make_HiPPO_def is_mat_def list_all_iff)

lemma make_HiPPO_nth:
  assumes "i < N" "j < N"
  shows "make_HiPPO N ! i ! j =
           (if j < i then sqrt (2 * real i + 3) * sqrt (2 * real j + 3)
            else if i = j then real i + 2 else 0)"
proof -
  have "make_HiPPO N ! i ! j =
          (if Suc j < Suc i then sqrt (2 * real (Suc i) + 1) * sqrt (2 * real (Suc j) + 1)
           else if Suc i = Suc j then real (Suc i) + 1 else 0)"
    using assms unfolding make_HiPPO_def by (simp del: upt_Suc)
  also have "\<dots> = (if j < i then sqrt (2 * real i + 3) * sqrt (2 * real j + 3)
                   else if i = j then real i + 2 else 0)"
    by (simp add: algebra_simps)
  finally show ?thesis .
qed

lemma outer_nth: "i < length p \<Longrightarrow> j < length q \<Longrightarrow> outer p q ! i ! j = p ! i * q ! j"
  by (simp add: outer_def)

lemma is_mat_outer: "is_mat (length p) (length q) (outer p q)"
  by (simp add: outer_def is_mat_def list_all_iff)

lemma hippo_p_length [simp]: "length (hippo_p N) = N"
  by (simp add: hippo_p_def)

lemma hippo_p_nth: "i < N \<Longrightarrow> hippo_p N ! i = sqrt (2 * real i + 3)"
  unfolding hippo_p_def by (simp del: upt_Suc add: algebra_simps)

lemma ew2_nth:
  "i < length A \<Longrightarrow> i < length B \<Longrightarrow> j < length (A ! i) \<Longrightarrow> j < length (B ! i) \<Longrightarrow>
   ew2 f A B ! i ! j = f (A ! i ! j) (B ! i ! j)"
  by (simp add: ew2_def)

lemma is_mat_ew2: "is_mat r c A \<Longrightarrow> is_mat r c B \<Longrightarrow> is_mat r c (ew2 f A B)"
  by (auto simp: ew2_def is_mat_def list_all_length)

lemma is_mat_mat_scale: "is_mat r c A \<Longrightarrow> is_mat r c (mat_scale s A)"
  by (auto simp: mat_scale_def is_mat_def list_all_length)

lemma is_mat_mat_neg: "is_mat r c A \<Longrightarrow> is_mat r c (mat_neg A)"
  by (auto simp: mat_neg_def is_mat_def list_all_length)

lemma mat_scale_nth: "i < length A \<Longrightarrow> j < length (A ! i) \<Longrightarrow> mat_scale s A ! i ! j = s * A ! i ! j"
  by (simp add: mat_scale_def)

lemma mat_neg_nth: "i < length A \<Longrightarrow> j < length (A ! i) \<Longrightarrow> mat_neg A ! i ! j = - A ! i ! j"
  by (simp add: mat_neg_def)

lemma is_mat_eye: "is_mat N N (eye N)"
  by (simp add: eye_def)

lemma nrows_outer: "nrows (outer p q) = length p"
  by (simp add: nrows_def outer_def)

lemma ncols_outer: "p \<noteq> [] \<Longrightarrow> ncols (outer p q) = length q"
  by (cases p) (simp_all add: ncols_def outer_def)

lemma is_mat_tril_outer: "is_mat N N (tril (outer (hippo_p N) (hippo_p N)) k)"
proof (cases "N = 0")
  case True
  then show ?thesis by (simp add: tril_def nrows_outer is_mat_def mk_mat_def)
next
  case False
  then have "hippo_p N \<noteq> []" by (auto simp: hippo_p_def)
  then show ?thesis by (simp add: tril_def nrows_outer ncols_outer)
qed

lemma tril_outer_nth:
  assumes "i < N" "j < N"
  shows "tril (outer (hippo_p N) (hippo_p N)) k ! i ! j =
           (if int j \<le> int i + k then hippo_p N ! i * hippo_p N ! j else 0)"
proof -
  have ne: "hippo_p N \<noteq> []" using assms by (auto simp: hippo_p_def)
  show ?thesis using assms by (simp add: tril_def nrows_outer ncols_outer [OF ne] outer_nth)
qed

lemma is_mat_diag_upt: "is_mat N N (diag_mat (map f [1..<N + 1]))"
proof -
  have "length (map f [1..<N + 1]) = N" by simp
  then show ?thesis unfolding diag_mat_def by (metis is_mat_mk_mat)
qed

lemma diag_upt_nth:
  "i < N \<Longrightarrow> j < N \<Longrightarrow> diag_mat (map f [1..<N + 1]) ! i ! j = (if i = j then f (Suc i) else 0)"
proof -
  assume ij: "i < N" "j < N"
  have len: "length (map f [1..<N + 1]) = N" by simp
  have "map f [1..<N + 1] ! i = f (Suc i)" using ij by (simp del: upt_Suc)
  then show ?thesis using ij unfolding diag_mat_def len by (simp del: upt_Suc)
qed

lemma is_mat_dplr_hippo: "is_mat N N (dplr_hippo N)"
  unfolding dplr_hippo_def Let_def
  by (intro is_mat_ew2 is_mat_mat_neg is_mat_tril_outer is_mat_diag_upt)

lemma dplr_hippo_nth:
  assumes "i < N" "j < N"
  shows "dplr_hippo N ! i ! j =
           (if j < i then - (sqrt (2 * real i + 3) * sqrt (2 * real j + 3))
            else if i = j then - (real i + 2) else 0)"
proof -
  let ?T = "tril (outer (hippo_p N) (hippo_p N)) (- 1)"
  let ?D = "diag_mat (map (\<lambda>n. real n + 1) [1..<N + 1])"
  have T: "is_mat N N ?T" by (rule is_mat_tril_outer)
  have D: "is_mat N N ?D" by (rule is_mat_diag_upt)
  have nT: "is_mat N N (mat_neg ?T)" by (rule is_mat_mat_neg [OF T])
  have "dplr_hippo N ! i ! j = mat_neg ?T ! i ! j - ?D ! i ! j"
    unfolding dplr_hippo_def Let_def
    using assms nT D by (subst ew2_nth) (simp_all add: is_mat_def list_all_length)
  also have "mat_neg ?T ! i ! j = - ?T ! i ! j"
    using assms T by (subst mat_neg_nth) (simp_all add: is_mat_def list_all_length)
  also have "?T ! i ! j = (if j < i then sqrt (2 * real i + 3) * sqrt (2 * real j + 3) else 0)"
    using assms by (auto simp add: tril_outer_nth hippo_p_nth)
  also have "?D ! i ! j = (if i = j then real i + 2 else 0)"
    using diag_upt_nth [OF assms, of "\<lambda>n. real n + 1"] by (simp del: upt_Suc add: algebra_simps)
  finally show ?thesis by auto
qed

lemma make_HiPPO_neg: "make_HiPPO N = mat_neg (dplr_hippo N)"
proof (rule mat_eqI [where r = N and c = N])
  show "is_mat N N (make_HiPPO N)" by (rule make_HiPPO_is_mat)
  show "is_mat N N (mat_neg (dplr_hippo N))" by (rule is_mat_mat_neg [OF is_mat_dplr_hippo])
next
  fix i j assume ij: "i < N" "j < N"
  have "mat_neg (dplr_hippo N) ! i ! j = - dplr_hippo N ! i ! j"
    using ij is_mat_dplr_hippo [of N] by (subst mat_neg_nth) (simp_all add: is_mat_def list_all_length)
  then show "make_HiPPO N ! i ! j = mat_neg (dplr_hippo N) ! i ! j"
    using ij by (simp add: make_HiPPO_nth dplr_hippo_nth)
qed

lemma fst_make_DPLR_HiPPO: "fst (make_DPLR_HiPPO eig_cpu N) = dplr_hippo N"
  by (simp add: make_DPLR_HiPPO_def Let_def split: prod.split)

lemma lower_triangular_eigenvalue:
  fixes A :: "real mat"
  assumes ep: "eigenpair A ev v"
    and tri: "\<And>i j. i < j \<Longrightarrow> j < length A \<Longrightarrow> A ! i ! j = 0"
  shows "\<exists>m<length A. ev = complex_of_real (A ! m ! m)"
proof -
  let ?N = "length A"
  from ep have len: "length v = ?N" and ex: "\<exists>i<?N. v ! i \<noteq> 0"
    and eq: "\<And>i. i < ?N \<Longrightarrow> (\<Sum>j<?N. complex_of_real (A ! i ! j) * v ! j) = ev * v ! i"
    by (auto simp: eigenpair_def)
  define m where "m = (LEAST i. i < ?N \<and> v ! i \<noteq> 0)"
  from ex have m: "m < ?N \<and> v ! m \<noteq> 0"
    unfolding m_def by (rule LeastI_ex)
  have below: "v ! j = 0" if "j < m" for j
  proof (rule ccontr)
    assume "v ! j \<noteq> 0"
    with that m have "j < ?N \<and> v ! j \<noteq> 0" by simp
    then have "m \<le> j" unfolding m_def by (rule Least_le)
    with that show False by simp
  qed
  have "(\<Sum>j<?N. complex_of_real (A ! m ! j) * v ! j)
        = (\<Sum>j<?N. if j = m then complex_of_real (A ! m ! m) * v ! m else 0)"
  proof (rule sum.cong)
    fix j assume "j \<in> {..<?N}"
    consider "j < m" | "j = m" | "m < j" by linarith
    then show "complex_of_real (A ! m ! j) * v ! j
               = (if j = m then complex_of_real (A ! m ! m) * v ! m else 0)"
      using below tri m \<open>j \<in> {..<?N}\<close> by cases auto
  qed simp
  also have "\<dots> = complex_of_real (A ! m ! m) * v ! m"
    using m by simp
  finally have "complex_of_real (A ! m ! m) * v ! m = ev * v ! m"
    using eq m by simp
  with m have "ev = complex_of_real (A ! m ! m)" by simp
  with m show ?thesis by blast
qed

lemma make_HiPPO_eigen_pos:
  assumes "eigenpair (make_HiPPO N) ev v"
  shows "0 < Re ev"
proof -
  have N: "length (make_HiPPO N) = N" by (simp add: make_HiPPO_def)
  have "\<exists>m<length (make_HiPPO N). ev = complex_of_real (make_HiPPO N ! m ! m)"
  proof (rule lower_triangular_eigenvalue [OF assms])
    fix i j assume "i < j" "j < length (make_HiPPO N)"
    then show "make_HiPPO N ! i ! j = 0"
      by (simp add: make_HiPPO_nth N)
  qed
  then obtain m where "m < N" "ev = complex_of_real (make_HiPPO N ! m ! m)" using N by auto
  then show ?thesis by (simp add: make_HiPPO_nth)
qed

section \<open>The two HiPPO constructions\<close>

text \<open>
  C10.  For every \<open>N\<close>, the matrix returned by \<^verbatim>\<open>make_HiPPO(N)\<close> is the elementwise negation of
  the matrix \<^verbatim>\<open>hippo\<close> built inside \<^verbatim>\<open>make_DPLR_HiPPO(N)\<close> (its first result).  Hence the
  operator that \<^verbatim>\<open>NaiveSSMInit(N)\<close> passes to the naive layer is the negation of the operator
  whose DPLR form the S4 layer uses, and each of its eigenvalues has a strictly positive
  real part.
\<close>

theorem make_HiPPO_negates_dplr_hippo:
  "make_HiPPO N = mat_neg (fst (make_DPLR_HiPPO eig_cpu N)) \<and>
   naive_A (NaiveSSMInit N) = mat_neg (fst (make_DPLR_HiPPO eig_cpu N)) \<and>
   (\<forall>ev v. eigenpair (naive_A (NaiveSSMInit N)) ev v \<longrightarrow> 0 < Re ev)"
  by (simp add: fst_make_DPLR_HiPPO NaiveSSMInit_def make_HiPPO_neg [symmetric]
      make_HiPPO_eigen_pos)

lemma make_HiPPO_2: "make_HiPPO 2 = [[2, 0], [sqrt 5 * sqrt 3, 3]]"
  by (simp add: make_HiPPO_def upt_rec)

theorem make_HiPPO_negates_dplr_hippo_witness:
  "eigenpair (naive_A (NaiveSSMInit 2)) 3 [0, 1] \<and> 0 < Re 3 \<and>
   make_HiPPO 2 = mat_neg (fst (make_DPLR_HiPPO eig2 2))"
proof -
  have e: "eigenpair (naive_A (NaiveSSMInit 2)) 3 [0, 1]"
    by (auto simp add: eigenpair_def NaiveSSMInit_def make_HiPPO_2 lessThan_Suc less_Suc_eq)
  from make_HiPPO_negates_dplr_hippo [of 2 eig2] e show ?thesis by blast
qed

section \<open>The spectrum of the DPLR factorisation\<close>

lemma is_mat_dplr_S: "is_mat N N (dplr_S N)"
proof -
  have o: "is_mat N N (outer (hippo_p N) (hippo_p N))"
    using is_mat_outer [of "hippo_p N" "hippo_p N"] by simp
  show ?thesis
    unfolding dplr_S_def Let_def
    by (intro is_mat_ew2 is_mat_dplr_hippo is_mat_mat_scale o is_mat_eye)
qed

lemma dplr_S_nth:
  assumes "i < N" "j < N"
  shows "dplr_S N ! i ! j =
           (if j < i then - (sqrt (2 * real i + 3) * sqrt (2 * real j + 3)) / 2
            else if i = j then 0 else sqrt (2 * real i + 3) * sqrt (2 * real j + 3) / 2)"
proof -
  let ?pq = "outer (hippo_p N) (hippo_p N)"
  have o: "is_mat N N ?pq"
    using is_mat_outer [of "hippo_p N" "hippo_p N"] by simp
  have so: "is_mat N N (mat_scale 0.5 ?pq)" by (rule is_mat_mat_scale [OF o])
  have se: "is_mat N N (mat_scale 0.5 (eye N :: real mat))" by (rule is_mat_mat_scale [OF is_mat_eye])
  have sum: "is_mat N N (ew2 (+) (mat_scale 0.5 ?pq) (mat_scale 0.5 (eye N)))"
    by (rule is_mat_ew2 [OF so se])
  note rows = is_mat_row [OF _ assms(1)]
  have len: "\<And>A :: real mat. is_mat N N A \<Longrightarrow> i < length A \<and> j < length (A ! i)"
    using assms by (simp add: is_mat_def list_all_length)
  have "dplr_S N ! i ! j = dplr_hippo N ! i ! j + (0.5 * ?pq ! i ! j + 0.5 * eye N ! i ! j)"
    unfolding dplr_S_def Let_def
    using len [OF is_mat_dplr_hippo] len [OF sum] len [OF so] len [OF se] len [OF o]
      len [OF is_mat_eye]
    by (simp add: ew2_nth mat_scale_nth)
  also have "?pq ! i ! j = sqrt (2 * real i + 3) * sqrt (2 * real j + 3)"
    using assms by (simp add: outer_nth hippo_p_nth)
  also have "(eye N :: real mat) ! i ! j = (if i = j then 1 else 0)"
    using assms by (simp add: eye_def)
  finally show ?thesis
    using assms by (auto simp add: dplr_hippo_nth field_simps)
qed

lemma dplr_S_skew:
  assumes "i < N" "j < N"
  shows "dplr_S N ! j ! i = - dplr_S N ! i ! j"
  using assms by (auto simp add: dplr_S_nth mult.commute)

lemma skew_eigenvalue_imaginary:
  fixes A :: "real mat"
  assumes ep: "eigenpair A ev v"
    and skew: "\<And>i j. i < length A \<Longrightarrow> j < length A \<Longrightarrow> A ! j ! i = - A ! i ! j"
  shows "Re ev = 0"
proof -
  let ?N = "length A"
  from ep have len: "length v = ?N" and ex: "\<exists>i<?N. v ! i \<noteq> 0"
    and eq: "\<And>i. i < ?N \<Longrightarrow> (\<Sum>j<?N. complex_of_real (A ! i ! j) * v ! j) = ev * v ! i"
    by (auto simp: eigenpair_def)
  define n2 where "n2 = (\<Sum>i<?N. cnj (v ! i) * v ! i)"
  define q where "q = (\<Sum>i<?N. \<Sum>j<?N. cnj (v ! i) * (complex_of_real (A ! i ! j) * v ! j))"
  have n2_real: "n2 = complex_of_real (\<Sum>i<?N. (cmod (v ! i))\<^sup>2)"
    unfolding n2_def by (simp add: mult.commute [of "cnj _"] complex_mult_cnj cmod_power2)
  from ex obtain k where k: "k < ?N" "v ! k \<noteq> 0" by blast
  have "0 < (cmod (v ! k))\<^sup>2" using k by simp
  also have "\<dots> \<le> (\<Sum>i<?N. (cmod (v ! i))\<^sup>2)"
    using k by (intro member_le_sum) auto
  finally have "(\<Sum>i<?N. (cmod (v ! i))\<^sup>2) \<noteq> 0" by simp
  then have n2_pos: "n2 \<noteq> 0" unfolding n2_real by (simp only: of_real_eq_0_iff not_False_eq_True)
  have q1: "q = ev * n2"
  proof -
    have "q = (\<Sum>i<?N. cnj (v ! i) * (ev * v ! i))"
      unfolding q_def by (rule sum.cong) (simp_all add: sum_distrib_left [symmetric] eq)
    also have "\<dots> = ev * n2"
      unfolding n2_def by (simp add: sum_distrib_left mult_ac)
    finally show ?thesis .
  qed
  have q2: "cnj q = - q"
  proof -
    have "cnj q = (\<Sum>i<?N. \<Sum>j<?N. v ! i * (complex_of_real (A ! i ! j) * cnj (v ! j)))"
      unfolding q_def by simp
    also have "\<dots> = (\<Sum>j<?N. \<Sum>i<?N. v ! i * (complex_of_real (A ! i ! j) * cnj (v ! j)))"
      by (rule sum.swap)
    also have "\<dots> = (\<Sum>j<?N. \<Sum>i<?N. - (cnj (v ! j) * (complex_of_real (A ! j ! i) * v ! i)))"
    proof (intro sum.cong refl)
      fix j i assume "j \<in> {..<?N}" "i \<in> {..<?N}"
      then have "A ! i ! j = - A ! j ! i" using skew [of j i] by simp
      then show "v ! i * (complex_of_real (A ! i ! j) * cnj (v ! j))
                 = - (cnj (v ! j) * (complex_of_real (A ! j ! i) * v ! i))"
        by (simp only: of_real_minus) (simp add: mult_ac)
    qed
    also have "\<dots> = - q"
      unfolding q_def by (simp add: sum_negf)
    finally show ?thesis .
  qed
  have "cnj n2 = n2" unfolding n2_real by simp
  with q1 q2 have "cnj ev * n2 = - ev * n2" by (metis complex_cnj_mult mult_minus_left)
  then have "(cnj ev + ev) * n2 = 0" by (simp add: algebra_simps)
  with n2_pos have "cnj ev + ev = 0" by simp
  then have "cnj ev = - ev" by (simp add: add_eq_0_iff2)
  then have "Re (cnj ev) = Re (- ev)" by simp
  then show ?thesis by simp
qed

lemma dplr_S_eigen_imaginary:
  assumes "eigenpair (dplr_S N) ev v"
  shows "Re ev = 0"
proof (rule skew_eigenvalue_imaginary [OF assms])
  have N: "length (dplr_S N) = N" using is_mat_dplr_S [of N] by (simp add: is_mat_def)
  fix i j assume "i < length (dplr_S N)" "j < length (dplr_S N)"
  then show "dplr_S N ! j ! i = - dplr_S N ! i ! j"
    unfolding N by (rule dplr_S_skew)
qed

lemma dplr_S_2: "dplr_S 2 = [[0, sqrt 3 * sqrt 5 / 2], [- (sqrt 5 * sqrt 3) / 2, 0]]"
proof (rule mat_eqI [where r = 2 and c = 2])
  show "is_mat 2 2 (dplr_S 2)" by (rule is_mat_dplr_S)
  show "is_mat 2 2 [[0, sqrt 3 * sqrt 5 / 2], [- (sqrt 5 * sqrt 3) / 2, 0]]"
    by (simp add: is_mat_def)
next
  fix i j :: nat assume "i < 2" "j < 2"
  then have "(i = 0 \<or> i = 1) \<and> (j = 0 \<or> j = 1)" by auto
  then show "dplr_S 2 ! i ! j = [[0, sqrt 3 * sqrt 5 / 2], [- (sqrt 5 * sqrt 3) / 2, 0]] ! i ! j"
    by (auto simp add: dplr_S_nth)
qed

lemma eig2_result: "eig_result (dplr_S 2) (eig2 (dplr_S 2))"
  unfolding dplr_S_2
  by (auto simp add: eig_result_def eig2_def is_mat_def eigenpair_def col_def lessThan_Suc
      less_Suc_eq upt_rec mult_ac)

text \<open>
  C5.  Every entry of the diagonal vector \<open>\<Lambda>\<close> returned by \<^verbatim>\<open>make_DPLR_HiPPO(N)\<close> (its second
  result) has a strictly negative real part, whenever \<^verbatim>\<open>eig_cpu\<close> returns an eigendecomposition
  of the matrix \<open>S\<close> it is applied to.  The matrix \<open>S\<close> is skew-symmetric, so its eigenvalues are
  purely imaginary, and \<open>\<Lambda>\<close> is these eigenvalues shifted by \<open>- 1/2\<close>.
\<close>

theorem Lambda_negative_real_part:
  assumes "eig_result (dplr_S N) (eig_cpu (dplr_S N))"
  shows "length (fst (snd (make_DPLR_HiPPO eig_cpu N))) = N \<and>
         list_all (\<lambda>x. Re x < 0) (fst (snd (make_DPLR_HiPPO eig_cpu N)))"
proof -
  obtain d V where dv: "eig_cpu (dplr_S N) = (d, V)" by (cases "eig_cpu (dplr_S N)")
  have N: "length (dplr_S N) = N" using is_mat_dplr_S [of N] by (simp add: is_mat_def)
  from assms dv N have len: "length d = N"
    and ep: "\<And>k. k < N \<Longrightarrow> eigenpair (dplr_S N) (d ! k) (col V k)"
    by (auto simp: eig_result_def list_all_iff)
  have L: "fst (snd (make_DPLR_HiPPO eig_cpu N)) = map (\<lambda>x. x - 0.5) d"
    by (simp add: make_DPLR_HiPPO_def Let_def dv)
  have "Re (d ! k - 0.5) < 0" if "k < N" for k
    using dplr_S_eigen_imaginary [OF ep [OF that]] by simp
  then show ?thesis
    unfolding L using len by (simp add: list_all_length)
qed

theorem Lambda_negative_real_part_witness:
  "eig_result (dplr_S 2) (eig2 (dplr_S 2)) \<and>
   length (fst (snd (make_DPLR_HiPPO eig2 2))) = 2 \<and>
   list_all (\<lambda>x. Re x < 0) (fst (snd (make_DPLR_HiPPO eig2 2)))"
  using Lambda_negative_real_part [of 2 eig2] eig2_result by simp

section \<open>Discretization\<close>

lemma mk_mat_cong:
  "(\<And>i j. i < r \<Longrightarrow> j < c \<Longrightarrow> f i j = g i j) \<Longrightarrow> mk_mat r c f = mk_mat r c g"
  by (simp add: mk_mat_def)

lemma is_mat_nrows: "is_mat r c A \<Longrightarrow> nrows A = r"
  by (simp add: is_mat_def nrows_def)

lemma is_mat_square_ncols: "is_mat N N A \<Longrightarrow> ncols A = N"
  by (cases A) (auto simp: is_mat_def ncols_def)

lemma ncols_mk_mat: "0 < r \<Longrightarrow> ncols (mk_mat r c f) = c"
  by (rule is_mat_ncols [OF is_mat_mk_mat])

lemma ncols_mk_mat_square [simp]: "ncols (mk_mat N N f) = N"
  by (rule is_mat_square_ncols [OF is_mat_mk_mat])

lemma nrows_mk_mat [simp]: "nrows (mk_mat r c f) = r"
  by (simp add: nrows_def)

lemma bdim_same [simp]: "bdim n n = Some n"
  by (simp add: bdim_def)

lemma bcast2_square:
  assumes "is_mat N N A" "is_mat N N B"
  shows "bcast2 f A B = Inr (mk_mat N N (\<lambda>i j. f (A ! i ! j) (B ! i ! j)))"
proof -
  have s: "nrows A = N" "nrows B = N" "ncols A = N" "ncols B = N"
    using assms by (simp_all add: is_mat_nrows is_mat_square_ncols)
  have "mk_mat N N (\<lambda>i j. f (A ! (if N = 1 then 0 else i) ! (if N = 1 then 0 else j))
                             (B ! (if N = 1 then 0 else i) ! (if N = 1 then 0 else j)))
        = mk_mat N N (\<lambda>i j. f (A ! i ! j) (B ! i ! j))"
    by (rule mk_mat_cong) auto
  then show ?thesis by (simp add: bcast2_def s)
qed

lemma is_mat_scale_iff [simp]: "is_mat r c (mat_scale s A) \<longleftrightarrow> is_mat r c A"
  by (auto simp: mat_scale_def is_mat_def list_all_length)

lemma bind_err_Inr [simp]: "bind_err (Inr x) f = f x"
  by (simp add: bind_err_def)

lemma bind_err_Inl [simp]: "bind_err (Inl e) f = Inl e"
  by (simp add: bind_err_def)

lemma discretize_X:
  assumes "is_mat N N A"
  shows "bcast2 (-) (eye N) (mat_scale (step / 2) A) = Inr (disc_X N A step)"
proof -
  have "mk_mat N N (\<lambda>i j. eye N ! i ! j - mat_scale (step / 2) A ! i ! j) = disc_X N A step"
    unfolding disc_X_def using assms
    by (intro mk_mat_cong) (simp add: eye_def mat_scale_nth is_mat_def list_all_length)
  then show ?thesis
    using assms by (simp add: bcast2_square [OF is_mat_eye] )
qed

lemma discretize_Y:
  assumes "is_mat N N A"
  shows "bcast2 (+) (eye N) (mat_scale (step / 2) A) = Inr (disc_Y N A step)"
proof -
  have "mk_mat N N (\<lambda>i j. eye N ! i ! j + mat_scale (step / 2) A ! i ! j) = disc_Y N A step"
    unfolding disc_Y_def using assms
    by (intro mk_mat_cong) (simp add: eye_def mat_scale_nth is_mat_def list_all_length)
  then show ?thesis
    using assms by (simp add: bcast2_square [OF is_mat_eye] )
qed

lemma matmul_square:
  assumes "is_mat N N A" "is_mat N c B" "0 < N"
  shows "matmul A B = Inr (mk_mat N c (\<lambda>i j. \<Sum>k<N. A ! i ! k * B ! k ! j))"
  using assms by (simp add: matmul_def is_mat_nrows is_mat_square_ncols is_mat_ncols)

lemma disc_X_mass: "disc_X 2 [[0, 1], [- 1, - 1]] (1::real) = [[1, - 1 / 2], [1 / 2, 3 / 2]]"
  by (simp add: disc_X_def mk_mat_def upt_rec)

lemma discretize_value:
  fixes A :: "'a::field mat"
  assumes "is_mat N N A" "is_mat N 1 B" "0 < N"
    and "linalg_inv (disc_X N A step) = Finite M"
    and "is_mat N N M" "matmul M (disc_X N A step) = Inr (eye N)"
  shows "discretize linalg_inv A B C step =
           Inr (Finite (mk_mat N N (\<lambda>i j. \<Sum>k<N. M ! i ! k * ((if k = j then 1 else 0) + step / 2 * A ! k ! j))),
                Finite (mk_mat N 1 (\<lambda>i j. \<Sum>k<N. (M ! i ! k * step) * B ! k ! 0)),
                C)"
proof -
  have nA: "nrows A = N" using assms(1) by (rule is_mat_nrows)
  have Y: "is_mat N N (disc_Y N A step)" by (simp add: disc_Y_def)
  have Ms: "is_mat N N (map (map (\<lambda>a. a * step)) M)"
    using assms(5) by (auto simp: is_mat_def list_all_length)
  have "mk_mat N N (\<lambda>i j. \<Sum>k<N. M ! i ! k * disc_Y N A step ! k ! j)
        = mk_mat N N (\<lambda>i j. \<Sum>k<N. M ! i ! k * ((if k = j then 1 else 0) + step / 2 * A ! k ! j))"
    by (intro mk_mat_cong sum.cong refl) (simp add: disc_Y_def)
  then have Abar: "matmul M (disc_Y N A step)
              = Inr (mk_mat N N (\<lambda>i j. \<Sum>k<N. M ! i ! k * ((if k = j then 1 else 0) + step / 2 * A ! k ! j)))"
    unfolding matmul_square [OF assms(5) Y assms(3)] by simp
  have "mk_mat N 1 (\<lambda>i j. \<Sum>k<N. map (map (\<lambda>a. a * step)) M ! i ! k * B ! k ! j)
        = mk_mat N 1 (\<lambda>i j. \<Sum>k<N. (M ! i ! k * step) * B ! k ! 0)"
    using assms(5) by (intro mk_mat_cong sum.cong) (simp_all add: is_mat_def list_all_length)
  then have Bbar: "matmul (map (map (\<lambda>a. a * step)) M) B
              = Inr (mk_mat N 1 (\<lambda>i j. \<Sum>k<N. (M ! i ! k * step) * B ! k ! 0))"
    unfolding matmul_square [OF Ms assms(2) assms(3)] by simp
  show ?thesis
    unfolding discretize_def Let_def nA discretize_X [OF assms(1)] discretize_Y [OF assms(1)]
    by (simp add: disc_X_def [symmetric] assms(4) Abar Bbar) (simp add: disc_X_def)
qed

text \<open>
  C4.  For an \<open>N \<times> N\<close> matrix \<open>A\<close>, an \<open>N \<times> 1\<close> matrix \<open>B\<close>, any \<open>C\<close> and a step such that the
  library inverse returns the inverse \<open>M\<close> of \<open>I - (step / 2) A\<close>, \<^verbatim>\<open>discretize\<close> returns
  \<open>Abar = M (I + (step / 2) A)\<close>, \<open>Bbar = (M step) B\<close> and \<open>C\<close> unchanged.
\<close>

theorem discretize_bilinear:
  fixes A :: "'a::field mat"
  assumes "is_mat N N A" "is_mat N 1 B" "0 < N"
    and "linalg_inv (disc_X N A step) = Finite M"
    and "is_mat N N M" "matmul M (disc_X N A step) = Inr (eye N)"
  shows "discretize linalg_inv A B C step =
           Inr (Finite (mk_mat N N (\<lambda>i j. \<Sum>k<N. M ! i ! k * ((if k = j then 1 else 0) + step / 2 * A ! k ! j))),
                Finite (mk_mat N 1 (\<lambda>i j. \<Sum>k<N. (M ! i ! k * step) * B ! k ! 0)),
                C)"
  using assms by (rule discretize_value)

theorem discretize_bilinear_witness:
  "is_mat 2 2 [[0, 1], [- 1, - 1 :: real]] \<and> is_mat 2 1 [[0], [1 :: real]] \<and>
   matmul [[6 / 7, 2 / 7], [- 2 / 7, 4 / 7]] (disc_X 2 [[0, 1], [- 1, - 1]] (1::real)) = Inr (eye 2) \<and>
   discretize (\<lambda>X. Finite [[6 / 7, 2 / 7], [- 2 / 7, 4 / 7]]) [[0, 1], [- 1, - 1]] [[0], [1]] [[0, 1]] (1::real)
     = Inr (Finite [[5 / 7, 4 / 7], [- 4 / 7, 1 / 7]], Finite [[2 / 7], [4 / 7]], [[0, 1]])"
proof -
  have 1: "is_mat 2 2 [[0, 1], [- 1, - 1 :: real]]" by (simp add: is_mat_def)
  have 2: "is_mat 2 1 [[0], [1 :: real]]" by (simp add: is_mat_def)
  have 3: "is_mat 2 2 [[6 / 7, 2 / 7], [- 2 / 7, 4 / 7 :: real]]" by (simp add: is_mat_def)
  have 4: "matmul [[6 / 7, 2 / 7], [- 2 / 7, 4 / 7]] (disc_X 2 [[0, 1], [- 1, - 1]] (1::real)) = Inr (eye 2)"
    unfolding disc_X_mass
    by (simp add: matmul_def nrows_def ncols_def eye_def mk_mat_def upt_rec lessThan_Suc numeral_2_eq_2)
  have 5: "(0::nat) < 2" by simp
  have 6: "(\<lambda>X. Finite [[6 / 7, 2 / 7], [- 2 / 7, 4 / 7 :: real]]) (disc_X 2 [[0, 1], [- 1, - 1]] 1)
           = Finite [[6 / 7, 2 / 7], [- 2 / 7, 4 / 7]]" by simp
  from discretize_bilinear [where N = 2 and A = "[[0, 1], [- 1, - 1 :: real]]" and B = "[[0], [1]]"
      and linalg_inv = "\<lambda>X. Finite [[6 / 7, 2 / 7], [- 2 / 7, 4 / 7]]" and step = 1
      and M = "[[6 / 7, 2 / 7], [- 2 / 7, 4 / 7]]" and C = "[[0, 1]]"] 1 2 3 4 5
  have "discretize (\<lambda>X. Finite [[6 / 7, 2 / 7], [- 2 / 7, 4 / 7]]) [[0, 1], [- 1, - 1]] [[0], [1]] [[0, 1]] (1::real)
     = Inr (Finite (mk_mat 2 2 (\<lambda>i j. \<Sum>k<2. [[6 / 7, 2 / 7], [- 2 / 7, 4 / 7]] ! i ! k * ((if k = j then 1 else 0) + 1 / 2 * [[0, 1], [- 1, - 1]] ! k ! j))),
                Finite (mk_mat 2 1 (\<lambda>i j. \<Sum>k<2. ([[6 / 7, 2 / 7], [- 2 / 7, 4 / 7]] ! i ! k * 1) * [[0], [1]] ! k ! 0)),
                [[0, 1]])" by blast
  then have "discretize (\<lambda>X. Finite [[6 / 7, 2 / 7], [- 2 / 7, 4 / 7]]) [[0, 1], [- 1, - 1]] [[0], [1]] [[0, 1]] (1::real)
     = Inr (Finite [[5 / 7, 4 / 7], [- 4 / 7, 1 / 7]], Finite [[2 / 7], [4 / 7]], [[0, 1]])"
    by (simp add: mk_mat_def upt_rec lessThan_Suc numeral_2_eq_2)
  with 1 2 4 show ?thesis by blast
qed

theorem discretize_singular_counterexample:
  "bcast2 (-) (eye 1) (mat_scale (1 / 2) [[2]]) = Inr [[0 :: real]] \<and>
   discretize inv_1x1 [[2]] [[1]] [[1]] (1::real) = Inr (NonFinite, NonFinite, [[1]])"
  by (simp add: discretize_def bcast2_def nrows_def ncols_def eye_def mat_scale_def mk_mat_def
      inv_1x1_def matmul_def bdim_def)

lemma discretize_trace_result:
  "snd (discretize_trace linalg_inv A B C step) = discretize linalg_inv A B C step"
  by (simp add: discretize_trace_def discretize_def Let_def bind_err_def
      split: sum.splits fl.splits)

lemma discretize_returns:
  fixes A :: "'a::field mat"
  assumes A: "is_mat N N A" and B: "is_mat N 1 B" and N: "0 < N"
    and shape: "\<And>BL. linalg_inv (disc_X N A step) = Finite BL \<Longrightarrow> is_mat N N BL"
  shows "discretize linalg_inv A B C step =
           Inr (case linalg_inv (disc_X N A step) of
                  Finite BL \<Rightarrow>
                    (Finite (mk_mat N N (\<lambda>i j. \<Sum>k<N. BL ! i ! k * ((if k = j then 1 else 0) + step / 2 * A ! k ! j))),
                     Finite (mk_mat N 1 (\<lambda>i j. \<Sum>k<N. (BL ! i ! k * step) * B ! k ! 0)),
                     C)
                | NonFinite \<Rightarrow> (NonFinite, NonFinite, C))"
proof (cases "linalg_inv (disc_X N A step)")
  case NonFinite
  have nA: "nrows A = N" using A by (rule is_mat_nrows)
  have X: "is_mat N N (disc_X N A step)" by (simp add: disc_X_def)
  have Y: "is_mat N N (disc_Y N A step)" by (simp add: disc_Y_def)
  show ?thesis
    unfolding discretize_def Let_def nA discretize_X [OF A] discretize_Y [OF A]
    by (simp add: NonFinite matmul_square [OF X Y N] matmul_square [OF X B N])
       (simp add: disc_X_def)
next
  case (Finite BL)
  have BL: "is_mat N N BL" using Finite by (rule shape)
  have nA: "nrows A = N" using A by (rule is_mat_nrows)
  have Y: "is_mat N N (disc_Y N A step)" by (simp add: disc_Y_def)
  have Ms: "is_mat N N (map (map (\<lambda>a. a * step)) BL)"
    using BL by (auto simp: is_mat_def list_all_length)
  have "mk_mat N N (\<lambda>i j. \<Sum>k<N. BL ! i ! k * disc_Y N A step ! k ! j)
        = mk_mat N N (\<lambda>i j. \<Sum>k<N. BL ! i ! k * ((if k = j then 1 else 0) + step / 2 * A ! k ! j))"
    by (intro mk_mat_cong sum.cong refl) (simp add: disc_Y_def)
  then have Abar: "matmul BL (disc_Y N A step)
              = Inr (mk_mat N N (\<lambda>i j. \<Sum>k<N. BL ! i ! k * ((if k = j then 1 else 0) + step / 2 * A ! k ! j)))"
    unfolding matmul_square [OF BL Y N] by simp
  have "mk_mat N 1 (\<lambda>i j. \<Sum>k<N. map (map (\<lambda>a. a * step)) BL ! i ! k * B ! k ! j)
        = mk_mat N 1 (\<lambda>i j. \<Sum>k<N. (BL ! i ! k * step) * B ! k ! 0)"
    using BL by (intro mk_mat_cong sum.cong) (simp_all add: is_mat_def list_all_length)
  then have Bbar: "matmul (map (map (\<lambda>a. a * step)) BL) B
              = Inr (mk_mat N 1 (\<lambda>i j. \<Sum>k<N. (BL ! i ! k * step) * B ! k ! 0))"
    unfolding matmul_square [OF Ms B N] by simp
  show ?thesis
    unfolding discretize_def Let_def nA discretize_X [OF A] discretize_Y [OF A]
    by (simp add: disc_X_def [symmetric] Finite Abar Bbar) (simp add: disc_X_def)
qed

text \<open>
  C7 (as amended).  \<^verbatim>\<open>discretize\<close> has no singularity check and no tolerance.  For every
  \<open>N \<times> N\<close> matrix \<open>A\<close>, \<open>N \<times> 1\<close> matrix \<open>B\<close> and step for which \<open>I - (step / 2) A\<close> is singular, it
  reports no error: it returns \<open>(BL (I + (step / 2) A), (BL step) B, C)\<close> for whatever array \<open>BL\<close>
  the library inverse returns when that array is finite, and non-finite arrays together with
  \<open>C\<close> when it is not.
\<close>

theorem discretize_no_singularity_error:
  fixes A :: "'a::field mat"
  assumes "is_mat N N A" and "is_mat N 1 B" and "0 < N"
    and "singular_mat (disc_X N A step)"
    and "\<forall>BL. linalg_inv (disc_X N A step) = Finite BL \<longrightarrow> is_mat N N BL"
  shows "discretize linalg_inv A B C step =
           Inr (case linalg_inv (disc_X N A step) of
                  Finite BL \<Rightarrow>
                    (Finite (mk_mat N N (\<lambda>i j. \<Sum>k<N. BL ! i ! k * ((if k = j then 1 else 0) + step / 2 * A ! k ! j))),
                     Finite (mk_mat N 1 (\<lambda>i j. \<Sum>k<N. (BL ! i ! k * step) * B ! k ! 0)),
                     C)
                | NonFinite \<Rightarrow> (NonFinite, NonFinite, C))"
  using assms(1,2,3,5) by (intro discretize_returns) auto

lemma singular_7733: "singular_mat [[7, 7], [3, 3 :: real]]"
proof -
  have "length [1, - 1 :: real] = length [[7, 7], [3, 3 :: real]] \<and>
        (\<exists>j<length [[7, 7], [3, 3 :: real]]. [1, - 1 :: real] ! j \<noteq> 0) \<and>
        (\<forall>i<length [[7, 7], [3, 3 :: real]].
           (\<Sum>j<length [[7, 7], [3, 3 :: real]]. [[7, 7], [3, 3 :: real]] ! i ! j * [1, - 1] ! j) = 0)"
    by (auto simp: less_Suc_eq lessThan_Suc numeral_2_eq_2)
  then show ?thesis unfolding singular_mat_def by blast
qed

theorem discretize_no_singularity_error_witness:
  "disc_X 2 [[- 12, - 14], [- 6, - 4]] (1::real) = [[7, 7], [3, 3]] \<and>
   singular_mat [[7, 7], [3, 3 :: real]] \<and>
   discretize (\<lambda>X. Finite [[1, 2], [3, 4]]) [[- 12, - 14], [- 6, - 4]] [[1], [1]] [[5, 6]] (1::real)
     = Inr (Finite [[- 11, - 9], [- 27, - 25]], Finite [[3], [7]], [[5, 6]])"
proof -
  have X: "disc_X 2 [[- 12, - 14], [- 6, - 4]] (1::real) = [[7, 7], [3, 3]]"
    by (simp add: disc_X_def mk_mat_def upt_rec)
  have 1: "is_mat 2 2 [[- 12, - 14], [- 6, - 4 :: real]]" by (simp add: is_mat_def)
  have 2: "is_mat 2 1 [[1], [1 :: real]]" by (simp add: is_mat_def)
  have 3: "(0::nat) < 2" by simp
  have 4: "singular_mat (disc_X 2 [[- 12, - 14], [- 6, - 4]] (1::real))"
    unfolding X by (rule singular_7733)
  have 5: "\<forall>BL. (\<lambda>X. Finite [[1, 2], [3, 4 :: real]]) (disc_X 2 [[- 12, - 14], [- 6, - 4]] (1::real)) = Finite BL
             \<longrightarrow> is_mat 2 2 BL"
    by (auto simp: is_mat_def)
  from discretize_no_singularity_error [where N = 2 and A = "[[- 12, - 14], [- 6, - 4 :: real]]"
      and B = "[[1], [1]]" and linalg_inv = "\<lambda>X. Finite [[1, 2], [3, 4]]" and step = 1
      and C = "[[5, 6]]"] 1 2 3 4 5
  have "discretize (\<lambda>X. Finite [[1, 2], [3, 4]]) [[- 12, - 14], [- 6, - 4]] [[1], [1]] [[5, 6]] (1::real)
        = Inr (Finite (mk_mat 2 2 (\<lambda>i j. \<Sum>k<2. [[1, 2], [3, 4]] ! i ! k *
                          ((if k = j then 1 else 0) + 1 / 2 * [[- 12, - 14], [- 6, - 4]] ! k ! j))),
               Finite (mk_mat 2 1 (\<lambda>i j. \<Sum>k<2. ([[1, 2], [3, 4]] ! i ! k * 1) * [[1], [1]] ! k ! 0)),
               [[5, 6]])"
    by simp
  then have "discretize (\<lambda>X. Finite [[1, 2], [3, 4]]) [[- 12, - 14], [- 6, - 4]] [[1], [1]] [[5, 6]] (1::real)
        = Inr (Finite [[- 11, - 9], [- 27, - 25]], Finite [[3], [7]], [[5, 6]])"
    by (simp add: mk_mat_def upt_rec lessThan_Suc numeral_2_eq_2)
  with X singular_7733 show ?thesis by blast
qed

lemma discretize_trace_mismatch:
  fixes A :: "'a::field mat"
  assumes A: "is_mat N N A" and B: "is_mat M 1 B" and MN: "M \<noteq> N"
    and shape: "\<forall>BL. linalg_inv (disc_X N A step) = Finite BL \<longrightarrow> is_mat N N BL"
  shows "\<exists>Abar. discretize_trace linalg_inv A B C step =
           ([(''I'', Finite (eye N)), (''BL'', linalg_inv (disc_X N A step)), (''Abar'', Abar)],
            Inl DimensionMismatch)"
proof -
  have nA: "nrows A = N" using A by (rule is_mat_nrows)
  have nB: "nrows B = M" using B by (rule is_mat_nrows)
  have X: "is_mat N N (disc_X N A step)" by (simp add: disc_X_def)
  have Y: "is_mat N N (disc_Y N A step)" by (simp add: disc_Y_def)
  have sq: "nrows (disc_X N A step) = ncols (disc_X N A step)" by (simp add: disc_X_def)
  have XB: "matmul (disc_X N A step) B = Inl DimensionMismatch"
    using MN by (simp add: matmul_def nB is_mat_square_ncols [OF X])
  show ?thesis
  proof (cases "linalg_inv (disc_X N A step)")
    case NonFinite
    have "\<exists>Z. matmul (disc_X N A step) (disc_Y N A step) = Inr Z"
      by (simp add: matmul_def is_mat_nrows [OF Y] is_mat_square_ncols [OF X])
    then obtain Z where Z: "matmul (disc_X N A step) (disc_Y N A step) = Inr Z" by blast
    show ?thesis
      unfolding discretize_trace_def Let_def nA discretize_X [OF A] discretize_Y [OF A]
      using sq by (simp add: NonFinite Z XB)
  next
    case (Finite BL)
    then have BL: "is_mat N N BL" using shape by blast
    then have BLs: "is_mat N N (map (map (\<lambda>a. a * step)) BL)"
      by (auto simp: is_mat_def list_all_length)
    have "\<exists>Z. matmul BL (disc_Y N A step) = Inr Z"
      by (simp add: matmul_def is_mat_nrows [OF Y] is_mat_square_ncols [OF BL])
    then obtain Z where Z: "matmul BL (disc_Y N A step) = Inr Z" by blast
    have 2: "matmul (map (map (\<lambda>a. a * step)) BL) B = Inl DimensionMismatch"
      using MN by (simp add: matmul_def nB is_mat_square_ncols [OF BLs])
    show ?thesis
      unfolding discretize_trace_def Let_def nA discretize_X [OF A] discretize_Y [OF A]
      using sq by (simp add: Finite Z 2)
  qed
qed

text \<open>
  The error is not raised at entry: at \<open>A = [[1]]\<close>, \<open>B = [[1], [2]]\<close> the identity, the inverse and
  \<open>Abar\<close> have been computed when \<^verbatim>\<open>discretize\<close> raises.
\<close>

theorem discretize_entry_check_counterexample:
  "discretize_trace inv_1x1 [[1]] [[1], [2]] [[1]] (1::real)
     = ([(''I'', Finite [[1]]), (''BL'', Finite [[2]]), (''Abar'', Finite [[3]])],
        Inl DimensionMismatch)"
  by (simp add: discretize_trace_def bcast2_def nrows_def ncols_def eye_def mat_scale_def mk_mat_def
      inv_1x1_def matmul_def bdim_def)

text \<open>
  C9 (as amended).  For \<open>A\<close> of size \<open>N \<times> N\<close> and \<open>B\<close> of size \<open>M \<times> 1\<close> with \<open>M \<noteq> N\<close>, \<^verbatim>\<open>discretize\<close>
  raises a dimension mismatch and returns no result.  The error is not raised by a check at
  entry: it comes from the last product \<^verbatim>\<open>(BL * step) @ B\<close>, after \<open>I\<close>, the inverse \<open>BL\<close> and
  \<open>Abar\<close> have been computed (the library inverse returns an array of the shape of its
  argument).
\<close>

theorem discretize_dimension_mismatch:
  fixes A :: "'a::field mat"
  assumes "is_mat N N A" "is_mat M 1 B" "M \<noteq> N"
    and "\<forall>BL. linalg_inv (disc_X N A step) = Finite BL \<longrightarrow> is_mat N N BL"
  shows "discretize linalg_inv A B C step = Inl DimensionMismatch \<and>
         (\<exists>Abar. discretize_trace linalg_inv A B C step =
            ([(''I'', Finite (eye N)), (''BL'', linalg_inv (disc_X N A step)), (''Abar'', Abar)],
             Inl DimensionMismatch))"
proof -
  from discretize_trace_mismatch [where linalg_inv = linalg_inv and C = C, OF assms]
  obtain Abar where t: "discretize_trace linalg_inv A B C step =
      ([(''I'', Finite (eye N)), (''BL'', linalg_inv (disc_X N A step)), (''Abar'', Abar)],
       Inl DimensionMismatch)" by blast
  have "discretize linalg_inv A B C step = snd (discretize_trace linalg_inv A B C step)"
    by (simp only: discretize_trace_result)
  then have "discretize linalg_inv A B C step = Inl DimensionMismatch" by (simp add: t)
  with t show ?thesis by blast
qed

theorem discretize_dimension_mismatch_witness:
  "discretize (\<lambda>X. Finite X) [[0, 0], [0, 0]] [[1]] [[1, 1]] (1::real) = Inl DimensionMismatch \<and>
   discretize_trace (\<lambda>X. Finite X) [[0, 0], [0, 0]] [[1]] [[1, 1]] (1::real)
     = ([(''I'', Finite [[1, 0], [0, 1]]), (''BL'', Finite [[1, 0], [0, 1]]),
         (''Abar'', Finite [[1, 0], [0, 1]])], Inl DimensionMismatch)"
proof -
  have X: "disc_X 2 [[0, 0], [0, 0]] (1::real) = [[1, 0], [0, 1]]"
    by (simp add: disc_X_def mk_mat_def upt_rec)
  have 1: "is_mat 2 2 [[0, 0], [0, 0 :: real]]" by (simp add: is_mat_def)
  have 2: "is_mat 1 1 [[1 :: real]]" by (simp add: is_mat_def)
  have 3: "(1::nat) \<noteq> 2" by simp
  have 4: "\<forall>BL. (\<lambda>X. Finite X) (disc_X 2 [[0, 0], [0, 0]] (1::real)) = Finite BL \<longrightarrow> is_mat 2 2 BL"
    unfolding X by (auto simp: is_mat_def)
  from discretize_dimension_mismatch [where N = 2 and M = 1 and A = "[[0, 0], [0, 0 :: real]]"
      and B = "[[1]]" and linalg_inv = "\<lambda>X. Finite X" and step = 1 and C = "[[1, 1]]"] 1 2 3 4
  have d: "discretize (\<lambda>X. Finite X) [[0, 0], [0, 0]] [[1]] [[1, 1]] (1::real) = Inl DimensionMismatch"
    by blast
  have "discretize_trace (\<lambda>X. Finite X) [[0, 0], [0, 0]] [[1]] [[1, 1]] (1::real)
     = ([(''I'', Finite [[1, 0], [0, 1]]), (''BL'', Finite [[1, 0], [0, 1]]),
         (''Abar'', Finite [[1, 0], [0, 1]])], Inl DimensionMismatch)"
    by (simp add: discretize_trace_def Let_def bcast2_def nrows_def ncols_def eye_def mat_scale_def
        mk_mat_def matmul_def bdim_def upt_rec lessThan_Suc numeral_2_eq_2)
  with d show ?thesis by blast
qed

section \<open>Sampling at the roots of unity and transforming back\<close>

lemma unity_root_power_L: "0 < L \<Longrightarrow> unity_root L ^ L = 1"
  by (simp add: unity_root_def DeMoivre)

lemma unity_root_power_eq_1:
  assumes "0 < L" "unity_root L ^ j = 1"
  shows "L dvd j"
proof -
  from assms(2) have "cis (real j * (2 * pi / real L)) = 1"
    by (simp add: unity_root_def DeMoivre)
  then have "cos (real j * (2 * pi / real L)) = 1"
    by (metis cis.simps(1) one_complex.simps(1))
  then obtain n :: int where n: "real j * (2 * pi / real L) = real_of_int n * 2 * pi"
    unfolding cos_one_2pi_int by blast
  have "real j = real_of_int n * real L"
  proof -
    from n have "real j * (2 * pi) = real_of_int n * real L * (2 * pi)"
      using assms(1) by (simp add: field_simps)
    then show ?thesis by simp
  qed
  then have "int j = n * int L"
    by (metis of_int_eq_iff of_int_mult of_int_of_nat_eq)
  then have "int L dvd int j" by simp
  then show ?thesis by (simp only: int_dvd_int_iff)
qed

lemma unity_root_sum:
  assumes "0 < L"
  shows "(\<Sum>k<L. (unity_root L ^ j) ^ k) = (if L dvd j then of_nat L else 0)"
proof (cases "L dvd j")
  case True
  then obtain q where "j = L * q" by (auto simp: dvd_def)
  then have "unity_root L ^ j = 1"
    by (simp add: power_mult unity_root_power_L [OF assms])
  then show ?thesis using True by simp
next
  case False
  then have ne: "unity_root L ^ j \<noteq> 1"
    using unity_root_power_eq_1 [OF assms] by blast
  have "(unity_root L ^ j) ^ L = (unity_root L ^ L) ^ j"
    by (simp add: power_mult [symmetric] mult.commute)
  then have one: "(unity_root L ^ j) ^ L = 1"
    by (simp add: unity_root_power_L [OF assms])
  have "(\<Sum>k<L. (unity_root L ^ j) ^ k) = ((unity_root L ^ j) ^ L - 1) / (unity_root L ^ j - 1)"
    by (rule geometric_sum [OF ne])
  then show ?thesis using False one by simp
qed

lemma roots_of_unity_length [simp]: "length (roots_of_unity L) = L"
  by (simp add: roots_of_unity_def)

lemma roots_of_unity_nth:
  assumes "k < L"
  shows "roots_of_unity L ! k = unity_root L ^ k"
proof -
  have "(2 * \<i> * complex_of_real pi / of_nat L) * of_nat k
        = \<i> * complex_of_real (real k * (2 * pi / real L))"
    by simp
  then have "exp ((2 * \<i> * complex_of_real pi / of_nat L) * of_nat k)
             = cis (real k * (2 * pi / real L))"
    by (simp only: cis_conv_exp)
  then show ?thesis
    using assms by (simp add: roots_of_unity_def unity_root_def DeMoivre)
qed

lemma ifft_length [simp]: "length (ifft x) = length x"
  by (simp add: ifft_def Let_def)

lemma ifft_nth:
  assumes "m < length x"
  shows "ifft x ! m = (\<Sum>k<length x. x ! k * unity_root (length x) ^ (k * m)) / of_nat (length x)"
proof -
  have e: "exp (2 * complex_of_real pi * \<i> * of_nat k * of_nat m / of_nat (length x))
           = unity_root (length x) ^ (k * m)" for k
  proof -
    have "2 * complex_of_real pi * \<i> * of_nat k * of_nat m / of_nat (length x)
          = \<i> * complex_of_real (real (k * m) * (2 * pi / real (length x)))"
      by simp
    then show ?thesis
      by (simp only: cis_conv_exp [symmetric] unity_root_def DeMoivre)
  qed
  show ?thesis
    using assms by (simp add: ifft_def Let_def e)
qed

lemma dvd_sum_lt:
  fixes L l m :: nat
  assumes "0 < L" "l < L" "m < L"
  shows "L dvd (l + m) \<longleftrightarrow> l = (L - m) mod L"
proof (cases "m = 0")
  case True
  have "L dvd l \<longleftrightarrow> l = 0"
    using assms by (auto dest: dvd_imp_le)
  then show ?thesis using True assms by simp
next
  case False
  then have lm: "(L - m) mod L = L - m" using assms by simp
  show ?thesis
  proof
    assume "L dvd (l + m)"
    then obtain q where q: "l + m = L * q" by (auto simp: dvd_def)
    have "0 < l + m" using False by simp
    moreover have "l + m < 2 * L" using assms by simp
    ultimately have "q = 1" using q
      by (metis One_nat_def Suc_1 less_2_cases mult.commute mult_0_right mult_less_cancel2 nat_neq_iff)
    then show "l = (L - m) mod L" using q lm by simp
  next
    assume "l = (L - m) mod L"
    then have "l + m = L" using lm assms by simp
    then show "L dvd (l + m)" by simp
  qed
qed

lemma ifft_of_samples:
  assumes L: "0 < L" and K: "length K = L" and x: "length x = L"
    and s: "\<And>k. k < L \<Longrightarrow> x ! k = (\<Sum>l<L. K ! l * (unity_root L ^ k) ^ l)"
    and m: "m < L"
  shows "ifft x ! m = K ! ((L - m) mod L)"
proof -
  let ?w = "unity_root L"
  have "(\<Sum>k<L. x ! k * ?w ^ (k * m)) = (\<Sum>k<L. \<Sum>l<L. K ! l * (?w ^ (l + m)) ^ k)"
  proof (rule sum.cong [OF refl])
    fix k assume "k \<in> {..<L}"
    then have "x ! k * ?w ^ (k * m) = (\<Sum>l<L. K ! l * (?w ^ k) ^ l * ?w ^ (k * m))"
      by (simp add: s sum_distrib_right)
    also have "\<dots> = (\<Sum>l<L. K ! l * (?w ^ (l + m)) ^ k)"
      by (rule sum.cong [OF refl])
         (simp add: power_mult [symmetric] power_add [symmetric] algebra_simps mult.assoc)
    finally show "x ! k * ?w ^ (k * m) = (\<Sum>l<L. K ! l * (?w ^ (l + m)) ^ k)" .
  qed
  also have "\<dots> = (\<Sum>l<L. \<Sum>k<L. K ! l * (?w ^ (l + m)) ^ k)"
    by (rule sum.swap)
  also have "\<dots> = (\<Sum>l<L. K ! l * (if L dvd (l + m) then of_nat L else 0))"
    by (simp add: sum_distrib_left [symmetric] unity_root_sum [OF L])
  also have "\<dots> = (\<Sum>l<L. if l = (L - m) mod L then K ! l * of_nat L else 0)"
    by (rule sum.cong [OF refl]) (simp add: dvd_sum_lt [OF L _ m])
  also have "\<dots> = K ! ((L - m) mod L) * of_nat L"
    using L by simp
  finally show ?thesis
    using L m x by (simp add: ifft_nth)
qed

lemma sequence_err_Inr: "sequence_err (map Inr xs) = Inr xs"
  by (induction xs) (simp_all add: bind_err_def)

lemma sequence_fl_Finite: "sequence_fl (map Finite xs) = Finite xs"
  by (induction xs) (simp_all add: fl_bind_def)

lemma convFromGen_finite:
  assumes L: "0 < L" and x: "length x = L"
    and g: "\<And>k. k < L \<Longrightarrow> gen (roots_of_unity L ! k) = Inr (Finite (x ! k))"
  shows "convFromGen gen L
         = Inr (Finite (map (\<lambda>i. Re (ifft x ! (if i = 0 then i else L - i))) [0..<L]))"
proof -
  have "map gen (roots_of_unity L) = map Inr (map Finite x)"
    by (rule nth_equalityI) (simp_all add: x g)
  then have "sequence_err (map gen (roots_of_unity L)) = Inr (map Finite x)"
    by (simp only: sequence_err_Inr)
  then show ?thesis
    using L by (simp add: convFromGen_def Let_def sequence_fl_Finite fl_bind_def comp_def)
qed

lemma convFromGen_samples:
  assumes L: "0 < L" and K: "length K = L"
    and g: "\<And>k. k < L \<Longrightarrow>
              gen (unity_root L ^ k) = Inr (Finite (\<Sum>l<L. K ! l * (unity_root L ^ k) ^ l))"
  shows "convFromGen gen L = Inr (Finite (map Re K))"
proof -
  define x where "x = map (\<lambda>k. \<Sum>l<L. K ! l * (unity_root L ^ k) ^ l) [0..<L]"
  have x: "length x = L" by (simp add: x_def)
  have xk: "x ! k = (\<Sum>l<L. K ! l * (unity_root L ^ k) ^ l)" if "k < L" for k
    using that by (simp add: x_def)
  have "convFromGen gen L
        = Inr (Finite (map (\<lambda>i. Re (ifft x ! (if i = 0 then i else L - i))) [0..<L]))"
    by (rule convFromGen_finite [OF L x]) (simp add: roots_of_unity_nth g xk)
  also have "map (\<lambda>i. Re (ifft x ! (if i = 0 then i else L - i))) [0..<L] = map Re K"
  proof (rule nth_equalityI)
    show "length (map (\<lambda>i. Re (ifft x ! (if i = 0 then i else L - i))) [0..<L]) = length (map Re K)"
      by (simp add: K)
  next
    fix i assume "i < length (map (\<lambda>i. Re (ifft x ! (if i = 0 then i else L - i))) [0..<L])"
    then have i: "i < L" by simp
    let ?m = "if i = 0 then i else L - i"
    have m: "?m < L" using i L by auto
    have "(L - ?m) mod L = i" using i by auto
    then have "ifft x ! ?m = K ! i"
      using ifft_of_samples [OF L K x xk m] by simp
    then show "map (\<lambda>i. Re (ifft x ! (if i = 0 then i else L - i))) [0..<L] ! i = map Re K ! i"
      using i K by (auto split: if_splits)
  qed
  finally show ?thesis .
qed

lemma vbcast_same_length:
  assumes "length a = length b"
  shows "vbcast f a b = Inr (map (\<lambda>i. f (a ! i) (b ! i)) [0..<length b])"
proof -
  have "map (\<lambda>i. f (a ! (if length b = 1 then 0 else i)) (b ! (if length b = 1 then 0 else i)))
          [0..<length b] = map (\<lambda>i. f (a ! i) (b ! i)) [0..<length b]"
    by (rule map_cong) auto
  then show ?thesis using assms by (simp add: vbcast_def)
qed

lemma poly_gen_eq:
  assumes "length K = L"
  shows "poly_gen K L z = Inr (Finite (\<Sum>l<L. K ! l * z ^ l))"
proof -
  have "vbcast (*) K (map (\<lambda>l. z ^ l) [0..<L]) = Inr (map (\<lambda>l. K ! l * z ^ l) [0..<L])"
    using assms by (simp add: vbcast_same_length cong: map_cong)
  moreover have "sum_list (map (\<lambda>l. K ! l * z ^ l) [0..<L]) = (\<Sum>l<L. K ! l * z ^ l)"
    by (simp add: interv_sum_list_conv_sum_set_nat atLeast0LessThan)
  ultimately show ?thesis by (simp add: poly_gen_def bind_err_def)
qed

text \<open>
  C3.  For every real sequence \<open>K\<close> of length \<open>L > 0\<close>: sampling the truncated generating function
  \<open>\<Sum>l<L. K[l] z^l\<close> that \<^verbatim>\<open>K_gen_simple\<close> builds at the \<open>L\<close>-th roots of unity, applying the inverse
  discrete Fourier transform, reordering (index 0 stays, index \<open>k > 0\<close> goes to \<open>L - k\<close>) and
  taking real parts, as \<^verbatim>\<open>convFromGen\<close> does, gives back \<open>K\<close>.
\<close>

theorem convFromGen_roundtrip:
  assumes "0 < length K"
  shows "convFromGen (poly_gen (map complex_of_real K) (length K)) (length K) = Inr (Finite K)"
proof -
  have "convFromGen (poly_gen (map complex_of_real K) (length K)) (length K)
        = Inr (Finite (map Re (map complex_of_real K)))"
    by (rule convFromGen_samples [OF assms]) (simp_all add: poly_gen_eq)
  then show ?thesis by (simp add: comp_def)
qed

theorem convFromGen_roundtrip_witness:
  "0 < length [1, 2, 3 :: real] \<and>
   convFromGen (poly_gen (map complex_of_real [1, 2, 3]) (length [1, 2, 3 :: real])) (length [1, 2, 3 :: real])
     = Inr (Finite [1, 2, 3])"
  using convFromGen_roundtrip [of "[1, 2, 3]"] by simp

text \<open>
  C8 (as amended).  \<^verbatim>\<open>convFromGen\<close> makes no check of the imaginary component it discards: for
  \<open>L > 0\<close> and a function that is finite at the \<open>L\<close>-th roots of unity, it returns the real parts of
  the reordered inverse transform of the samples \<open>x\<close>, whatever their imaginary parts are, and
  raises nothing.
\<close>

theorem convFromGen_discards_imaginary:
  assumes "0 < L" "length x = L"
    and "\<forall>k<L. gen (roots_of_unity L ! k) = Inr (Finite (x ! k))"
  shows "convFromGen gen L
         = Inr (Finite (map (\<lambda>i. Re (ifft x ! (if i = 0 then i else L - i))) [0..<L]))"
  using assms by (intro convFromGen_finite) simp_all

lemma ifft_single: "ifft [a] = [a]"
  by (simp add: ifft_def)

theorem convFromGen_discards_imaginary_witness:
  "(0::nat) < 1 \<and> length [\<i>] = 1 \<and> convFromGen (\<lambda>z. Inr (Finite \<i>)) 1 = Inr (Finite [0])"
  using convFromGen_discards_imaginary [of 1 "[\<i>]" "\<lambda>z. Inr (Finite \<i>)"]
  by (simp add: ifft_single)

theorem convFromGen_imaginary_counterexample:
  "ifft [\<i>] = [\<i>] \<and> Im \<i> = 1 \<and> convFromGen (\<lambda>z. Inr (Finite \<i>)) 1 = Inr (Finite [0])"
  by (simp add: ifft_single convFromGen_def roots_of_unity_def bind_err_def fl_bind_def)

section \<open>The sequence transformer computes the causal convolution\<close>

lemma nonCircularConvolution_nth:
  assumes "K \<noteq> []" "l < length u"
  shows "\<exists>c. nonCircularConvolution u K = Inr c \<and> length c = length u \<and>
             c ! l = (\<Sum>m\<le>l. if l - m < length K then u ! m * K ! (l - m) else 0)"
proof -
  from assms have u: "u \<noteq> []" by auto
  let ?f = "\<lambda>n. \<Sum>m\<le>n. if m < length u \<and> n - m < length K then u ! m * K ! (n - m) else 0"
  let ?full = "map ?f [0..<length u + length K - 1]"
  have K: "0 < length K" using assms by simp
  have c: "nonCircularConvolution u K = Inr (take (length u) ?full)"
    using u assms by (simp add: nonCircularConvolution_def convolve_full_def)
  have le: "length u \<le> length u + length K - 1" using K by linarith
  have len: "length (take (length u) ?full) = length u" using le by (simp add: min_def)
  have l2: "l < length u + length K - 1" using le assms by linarith
  then have idx: "[0..<length u + length K - 1] ! l = l" by simp
  have "take (length u) ?full ! l = ?full ! l" using assms by simp
  also have "\<dots> = ?f ([0..<length u + length K - 1] ! l)"
    using l2 by (intro nth_map) simp
  also have "\<dots> = ?f l" unfolding idx ..
  also have "\<dots> = (\<Sum>m\<le>l. if l - m < length K then u ! m * K ! (l - m) else 0)"
    using assms by (intro sum.cong) auto
  finally show ?thesis using c len by blast
qed

lemma vbcast_singleton:
  "vbcast f [d] u = Inr (map (\<lambda>i. f d (u ! i)) [0..<length u])"
proof -
  have "map (\<lambda>i. f ([d] ! 0) (u ! (if length u = 1 then 0 else i))) [0..<length u]
        = map (\<lambda>i. f d (u ! i)) [0..<length u]"
    by (rule map_cong) auto
  then show ?thesis by (auto simp: vbcast_def bdim_def)
qed

lemma vbcast_mismatch:
  "length a \<noteq> length b \<Longrightarrow> length a \<noteq> 1 \<Longrightarrow> length b \<noteq> 1 \<Longrightarrow> vbcast f a b = Inl DimensionMismatch"
  by (simp add: vbcast_def bdim_def)

text \<open>
  C6.  For a kernel \<open>K\<close> and an input \<open>u\<close> of the same length \<open>L > 0\<close> and a scalar \<open>D\<close>, the layer
  returns a sequence \<open>y\<close> of length \<open>L\<close> with \<open>y[0] = K[0] u[0] + D u[0]\<close> and, for \<open>0 < l < L\<close>,
  \<open>y[l] = (\<Sum>t\<le>l. K[t] u[l - t]) + D u[l]\<close>.  It is a function of \<open>K\<close>, \<open>D\<close> and \<open>u\<close> alone.
\<close>

theorem S4Layer_call_spec:
  assumes "length K = L" "length u = L" "0 < L"
  shows "\<exists>y. S4Layer_call K D u = Inr y \<and> length y = L \<and>
             y ! 0 = K ! 0 * u ! 0 + D * u ! 0 \<and>
             (\<forall>l. 0 < l \<and> l < L \<longrightarrow> y ! l = (\<Sum>t\<le>l. K ! t * u ! (l - t)) + D * u ! l)"
proof -
  have Kne: "K \<noteq> []" using assms by auto
  from nonCircularConvolution_nth [OF Kne, of 0 u] assms
  obtain c where c: "nonCircularConvolution u K = Inr c" "length c = L" by auto
  define y where "y = map (\<lambda>i. c ! i + D * u ! i) [0..<L]"
  have Du: "vbcast (*) [D] u = Inr (map (\<lambda>i. D * u ! i) [0..<L])"
    using assms by (simp add: vbcast_singleton)
  have "vbcast (+) c (map (\<lambda>i. D * u ! i) [0..<L])
        = Inr (map (\<lambda>i. c ! i + map (\<lambda>i. D * u ! i) [0..<L] ! i) [0..<length (map (\<lambda>i. D * u ! i) [0..<L])])"
    by (rule vbcast_same_length) (simp add: c)
  also have "\<dots> = Inr y" by (simp add: y_def)
  finally have y: "S4Layer_call K D u = Inr y" by (simp add: S4Layer_call_def c Du)
  have leny: "length y = L" by (simp add: y_def)
  have nth: "y ! l = (\<Sum>t\<le>l. K ! t * u ! (l - t)) + D * u ! l" if "l < L" for l
  proof -
    from nonCircularConvolution_nth [OF Kne, of l u] that assms c
    have "c ! l = (\<Sum>m\<le>l. if l - m < length K then u ! m * K ! (l - m) else 0)" by auto
    also have "\<dots> = (\<Sum>m\<le>l. u ! m * K ! (l - m))"
      using that assms by (intro sum.cong) auto
    also have "\<dots> = (\<Sum>t\<le>l. K ! t * u ! (l - t))"
    proof -
      have "(\<Sum>m<Suc l. u ! m * K ! (l - m)) = (\<Sum>t<Suc l. u ! (Suc l - Suc t) * K ! (l - (Suc l - Suc t)))"
        by (rule sum.nat_diff_reindex [symmetric])
      also have "\<dots> = (\<Sum>t<Suc l. K ! t * u ! (l - t))"
        by (intro sum.cong) (auto simp: mult.commute)
      finally show ?thesis by (simp add: lessThan_Suc_atMost)
    qed
    finally show ?thesis using that c assms by (simp add: y_def)
  qed
  from nth [of 0] assms have "y ! 0 = K ! 0 * u ! 0 + D * u ! 0" by simp
  with y leny nth show ?thesis by blast
qed

theorem S4Layer_call_spec_witness:
  "length [1, 2, 3 :: real] = 3 \<and> length [1, 1, 1 :: real] = 3 \<and> (0::nat) < 3 \<and>
   (\<exists>y. S4Layer_call [1, 2, 3] 10 [1, 1, 1] = Inr y \<and> length y = 3 \<and>
        y ! 0 = [1, 2, 3] ! 0 * [1, 1, 1] ! 0 + 10 * [1, 1, 1] ! 0 \<and>
        (\<forall>l. 0 < l \<and> l < 3 \<longrightarrow> y ! l = (\<Sum>t\<le>l. [1, 2, 3] ! t * [1, 1, 1] ! (l - t)) + 10 * [1, 1, 1] ! l))"
  using S4Layer_call_spec [of "[1, 2, 3]" 3 "[1, 1, 1]" 10] by simp

section \<open>The generating function of a DPLR operator\<close>

lemma ravel_column:
  assumes "is_mat N 1 B"
  shows "ravel B = map (\<lambda>i. B ! i ! 0) [0..<N]"
proof -
  have rows: "\<forall>r\<in>set B. length r = 1" and len: "length B = N"
    using assms by (auto simp: is_mat_def list_all_iff)
  have "concat B = map (\<lambda>r. r ! 0) B" using rows
  proof (induction B)
    case Nil
    then show ?case by simp
  next
    case (Cons r B)
    then have "length r = 1" by simp
    then have "r = [r ! 0]" by (cases r) auto
    with Cons show ?case by (metis append_Cons append_Nil concat.simps(2) list.set_intros(2) list.simps(9))
  qed
  also have "\<dots> = map (\<lambda>i. B ! i ! 0) [0..<N]"
    unfolding len [symmetric] by (rule nth_equalityI) simp_all
  finally show ?thesis by (simp add: ravel_def)
qed

lemma sequence_fl_div:
  assumes "\<And>i. i < n \<Longrightarrow> d i \<noteq> 0"
  shows "sequence_fl (map (\<lambda>i. fl_div (a i) (d i)) [0..<n]) = Finite (map (\<lambda>i. a i / d i) [0..<n])"
proof -
  have "map (\<lambda>i. fl_div (a i) (d i)) [0..<n] = map Finite (map (\<lambda>i. a i / d i) [0..<n])"
    using assms by (simp add: fl_div_def)
  then show ?thesis by (simp only: sequence_fl_Finite)
qed

lemma cauchy_dot_finite:
  assumes "length v = length Lambda" "\<And>i. i < length Lambda \<Longrightarrow> w \<noteq> Lambda ! i"
  shows "cauchy_dot v (Finite w) Lambda = Inr (Finite (\<Sum>i<length Lambda. v ! i / (w - Lambda ! i)))"
proof -
  have "sequence_fl (map (\<lambda>i. fl_div (v ! i) (w - Lambda ! i)) [0..<length Lambda])
        = Finite (map (\<lambda>i. v ! i / (w - Lambda ! i)) [0..<length Lambda])"
    using assms(2) by (intro sequence_fl_div) simp
  moreover have "sum_list (map (\<lambda>i. v ! i / (w - Lambda ! i)) [0..<length Lambda])
        = (\<Sum>i<length Lambda. v ! i / (w - Lambda ! i))"
    by (simp add: interv_sum_list_conv_sum_set_nat atLeast0LessThan)
  ultimately show ?thesis
    using assms(1) by (simp add: cauchy_dot_def fl_bind_def fl_map_def)
qed

lemma cauchy_dot_product:
  assumes "length a = length Lambda" "length b = length Lambda"
    and "\<And>i. i < length Lambda \<Longrightarrow> w \<noteq> Lambda ! i"
  shows "bind_err (vbcast (*) a b) (\<lambda>v. cauchy_dot v (Finite w) Lambda)
         = Inr (Finite (cauchy_k w Lambda a b))"
proof -
  let ?v = "map (\<lambda>i. a ! i * b ! i) [0..<length Lambda]"
  have v: "vbcast (*) a b = Inr ?v"
    using assms(1,2) by (simp add: vbcast_same_length)
  have "cauchy_dot ?v (Finite w) Lambda = Inr (Finite (\<Sum>i<length Lambda. ?v ! i / (w - Lambda ! i)))"
    by (rule cauchy_dot_finite) (simp_all add: assms(3))
  also have "(\<Sum>i<length Lambda. ?v ! i / (w - Lambda ! i)) = cauchy_k w Lambda a b"
    unfolding cauchy_k_def by (rule sum.cong) simp_all
  finally show ?thesis by (simp add: v)
qed

lemma K_gen_DPLR_value:
  assumes len: "length Lambda = N" "length p = N" "length q = N" "length Ct = N" "is_mat N 1 B"
    and step: "0 < step"
    and z: "1 + z \<noteq> 0"
    and poles: "\<forall>i<N. bilinear_g step z \<noteq> Lambda ! i"
    and k11: "1 + cauchy_k (bilinear_g step z) Lambda (map cnj q) p \<noteq> 0"
  shows "K_gen_DPLR Lambda p q B Ct step z
         = Inr (Finite (dplr_formula Lambda p q (ravel B) (map cnj Ct) step z))"
proof -
  let ?g = "bilinear_g step z"
  have rB: "length (ravel B) = N" using len(5) by (simp add: ravel_column)
  have g: "fl_map (\<lambda>r. (2 / complex_of_real step) * r) (fl_div (1 - z) (1 + z)) = Finite ?g"
    using z by (simp add: fl_map_def fl_bind_def fl_div_def bilinear_g_def)
  have c: "fl_div 2 (1 + z) = Finite (bilinear_c z)"
    using z by (simp add: fl_div_def bilinear_c_def)
  have pl: "\<And>i. i < length Lambda \<Longrightarrow> ?g \<noteq> Lambda ! i" using poles len(1) by simp
  have k: "bind_err (vbcast (*) a b) (\<lambda>v. cauchy_dot v (Finite ?g) Lambda)
           = Inr (Finite (cauchy_k ?g Lambda a b))" if "length a = N" "length b = N" for a b
    using that len(1) by (intro cauchy_dot_product pl) simp_all
  have k00: "bind_err (vbcast (*) (map cnj Ct) (ravel B)) (\<lambda>v. cauchy_dot v (Finite ?g) Lambda)
             = Inr (Finite (cauchy_k ?g Lambda (map cnj Ct) (ravel B)))"
    by (rule k) (simp_all add: len rB)
  have k01: "bind_err (vbcast (*) (map cnj Ct) p) (\<lambda>v. cauchy_dot v (Finite ?g) Lambda)
             = Inr (Finite (cauchy_k ?g Lambda (map cnj Ct) p))"
    by (rule k) (simp_all add: len)
  have k10: "bind_err (vbcast (*) (map cnj q) (ravel B)) (\<lambda>v. cauchy_dot v (Finite ?g) Lambda)
             = Inr (Finite (cauchy_k ?g Lambda (map cnj q) (ravel B)))"
    by (rule k) (simp_all add: len rB)
  have k11': "bind_err (vbcast (*) (map cnj q) p) (\<lambda>v. cauchy_dot v (Finite ?g) Lambda)
             = Inr (Finite (cauchy_k ?g Lambda (map cnj q) p))"
    by (rule k) (simp_all add: len)
  have "K_gen_DPLR Lambda p q B Ct step z
        = Inr (fl_op2 (*) (Finite (bilinear_c z))
                 (fl_op2 (-) (Finite (cauchy_k ?g Lambda (map cnj Ct) (ravel B)))
                    (fl_op2 (*)
                       (fl_op2 (*) (Finite (cauchy_k ?g Lambda (map cnj Ct) p))
                          (fl_bind (fl_op2 (+) (Finite 1) (Finite (cauchy_k ?g Lambda (map cnj q) p)))
                             (fl_div 1)))
                       (Finite (cauchy_k ?g Lambda (map cnj q) (ravel B))))))"
    using step unfolding K_gen_DPLR_def Let_def fst_conv snd_conv g c k00 k01 k10 k11'
    by (simp only: bind_err_Inr) simp
  also have "\<dots> = Inr (Finite (dplr_formula Lambda p q (ravel B) (map cnj Ct) step z))"
    using k11 by (simp add: fl_op2_def fl_bind_def fl_div_def dplr_formula_def Let_def)
  finally show ?thesis .
qed

text \<open>
  C2 (as amended).  For \<open>\<Lambda>\<close>, \<open>p\<close>, \<open>q\<close>, \<open>Ct\<close> of length \<open>N\<close> and \<open>B\<close> of size \<open>N \<times> 1\<close>, a step \<open>> 0\<close> and an
  argument \<open>z\<close> with \<open>1 + z \<noteq> 0\<close>, \<open>g(z) \<noteq> \<Lambda>[i]\<close> for all \<open>i\<close> and \<open>1 + k(q*, p) \<noteq> 0\<close>, the function
  returned by \<^verbatim>\<open>K_gen_DPLR\<close> evaluates to
  \<open>c(z) (k(u, B) - k(u, p) (1 + k(q*, p))\<^sup>-\<^sup>1 k(q*, B))\<close> where \<open>u\<close> is the complex conjugate of
  the argument \<open>Ct\<close> (the code conjugates \<open>Ct\<close> as it conjugates \<open>q\<close>).
\<close>

theorem K_gen_DPLR_formula:
  assumes len: "length Lambda = N" "length p = N" "length q = N" "length Ct = N" "is_mat N 1 B"
    and step: "0 < step"
    and z: "1 + z \<noteq> 0"
    and poles: "\<forall>i<N. bilinear_g step z \<noteq> Lambda ! i"
    and k11: "1 + cauchy_k (bilinear_g step z) Lambda (map cnj q) p \<noteq> 0"
  shows "K_gen_DPLR Lambda p q B Ct step z
         = Inr (Finite (dplr_formula Lambda p q (ravel B) (map cnj Ct) step z))"
  using assms by (rule K_gen_DPLR_value)

theorem K_gen_DPLR_formula_witness:
  "length [- 1 :: complex] = 1 \<and> is_mat 1 1 [[1 :: complex]] \<and> (0::real) < 2 \<and> 1 + (0::complex) \<noteq> 0 \<and>
   bilinear_g 2 0 \<noteq> - 1 \<and> 1 + cauchy_k (bilinear_g 2 0) [- 1] (map cnj [0]) [0] \<noteq> 0 \<and>
   K_gen_DPLR [- 1] [0] [0] [[1]] [\<i>] 2 0 = Inr (Finite (- \<i>))"
proof -
  have 1: "is_mat 1 1 [[1 :: complex]]" by (simp add: is_mat_def)
  have 2: "bilinear_g 2 0 \<noteq> - 1" by (simp add: bilinear_g_def)
  have 3: "1 + cauchy_k (bilinear_g 2 0) [- 1] (map cnj [0]) [0] \<noteq> 0"
    by (simp add: cauchy_k_def)
  have 4: "\<forall>i<1. bilinear_g 2 0 \<noteq> [- 1] ! i" using 2 by simp
  have "K_gen_DPLR [- 1] [0] [0] [[1]] [\<i>] 2 0
        = Inr (Finite (dplr_formula [- 1] [0] [0] (ravel [[1]]) (map cnj [\<i>]) 2 0))"
  proof (rule K_gen_DPLR_formula [where N = 1])
    show "is_mat 1 1 [[1 :: complex]]" by (rule 1)
    show "\<forall>i<1. bilinear_g 2 0 \<noteq> [- 1] ! i" by (rule 4)
    show "1 + cauchy_k (bilinear_g 2 0) [- 1] (map cnj [0]) [0] \<noteq> 0" by (rule 3)
  qed simp_all
  also have "dplr_formula [- 1] [0] [0] (ravel [[1]]) (map cnj [\<i>]) 2 0 = - \<i>"
    by (simp add: dplr_formula_def bilinear_g_def bilinear_c_def cauchy_k_def ravel_def)
  finally show ?thesis using 1 2 3 by simp
qed

text \<open>With \<open>Ct\<close> itself in the formula, as the claim has it, the equation fails for \<open>Ct = [\<i>]\<close>.\<close>

theorem K_gen_DPLR_conjugate_counterexample:
  "K_gen_DPLR [- 1] [0] [0] [[1]] [\<i>] 2 0 = Inr (Finite (- \<i>)) \<and>
   dplr_formula [- 1] [0] [0] (ravel [[1]]) [\<i>] 2 0 = \<i> \<and>
   K_gen_DPLR [- 1] [0] [0] [[1]] [\<i>] 2 0
     \<noteq> Inr (Finite (dplr_formula [- 1] [0] [0] (ravel [[1]]) [\<i>] 2 0))"
  by (simp add: K_gen_DPLR_def Let_def ravel_def vbcast_def bdim_def cauchy_dot_def fl_map_def
      fl_bind_def fl_div_def fl_op2_def bind_err_def dplr_formula_def bilinear_g_def bilinear_c_def
      cauchy_k_def)

section \<open>The fast kernel and the naive kernel\<close>

lemma woodbury_vector:
  fixes d b p qc u x :: "nat \<Rightarrow> complex"
  assumes d: "\<And>i. i < N \<Longrightarrow> d i \<noteq> 0"
    and k11: "1 + (\<Sum>i<N. qc i * p i / d i) \<noteq> 0"
    and x: "\<And>i. i < N \<Longrightarrow>
              x i = (b i - p i * ((\<Sum>i<N. qc i * b i / d i) / (1 + (\<Sum>i<N. qc i * p i / d i)))) / d i"
  shows "\<And>i. i < N \<Longrightarrow> d i * x i + p i * (\<Sum>j<N. qc j * x j) = b i"
    and "(\<Sum>i<N. u i * x i)
         = (\<Sum>i<N. u i * b i / d i)
           - (\<Sum>i<N. u i * p i / d i) * (1 / (1 + (\<Sum>i<N. qc i * p i / d i))) * (\<Sum>i<N. qc i * b i / d i)"
proof -
  let ?k10 = "\<Sum>i<N. qc i * b i / d i"
  let ?k11 = "\<Sum>i<N. qc i * p i / d i"
  define t where "t = ?k10 / (1 + ?k11)"
  have xt: "x i = (b i - p i * t) / d i" if "i < N" for i
    using x [OF that] by (simp only: t_def)
  have split: "(\<Sum>i<N. v i * x i) = (\<Sum>i<N. v i * b i / d i) - (\<Sum>i<N. v i * p i / d i) * t"
    for v :: "nat \<Rightarrow> complex"
  proof -
    have "(\<Sum>i<N. v i * x i) = (\<Sum>i<N. v i * b i / d i - v i * p i / d i * t)"
      by (rule sum.cong) (simp_all add: xt diff_divide_distrib right_diff_distrib)
    then show ?thesis by (simp add: sum_subtractf sum_distrib_right)
  qed
  have t: "?k10 - ?k11 * t = t"
  proof -
    have "t * (1 + ?k11) = ?k10" using k11 by (simp add: t_def)
    then show ?thesis by (simp add: algebra_simps)
  qed
  have qx: "(\<Sum>i<N. qc i * x i) = t"
    using split [of qc] t by simp
  show "d i * x i + p i * (\<Sum>j<N. qc j * x j) = b i" if "i < N" for i
  proof -
    have "d i * x i = b i - p i * t" using d [OF that] by (simp add: xt [OF that])
    then show ?thesis by (simp only: qx) simp
  qed
  show "(\<Sum>i<N. u i * x i) = (\<Sum>i<N. u i * b i / d i)
           - (\<Sum>i<N. u i * p i / d i) * (1 / (1 + ?k11)) * ?k10"
    using split [of u] by (simp add: t_def)
qed

lemma bilinear_vector_identity:
  fixes s z g cz w Aw b :: complex
  assumes s: "s \<noteq> 0" and z: "1 + z \<noteq> 0"
    and g: "g = (2 / s) * ((1 - z) / (1 + z))" and cz: "cz = 2 / (1 + z)"
    and Aw: "Aw = g * w - cz * b"
  shows "(w - s / 2 * Aw) = z * (w + s / 2 * Aw) + s * b"
proof -
  have 1: "s / 2 * (1 + z) * g = 1 - z" using s z by (simp add: g)
  have 2: "s / 2 * (1 + z) * cz = s" using z by (simp add: cz)
  have "(w - s / 2 * Aw) - z * (w + s / 2 * Aw) = (1 - z) * w - (s / 2 * (1 + z)) * Aw"
    by (simp add: algebra_simps)
  also have "\<dots> = (1 - z) * w - (s / 2 * (1 + z) * g) * w + (s / 2 * (1 + z) * cz) * b"
    unfolding Aw by (simp add: field_simps)
  also have "\<dots> = s * b" by (simp only: 1 2) simp
  finally show ?thesis by (simp add: algebra_simps)
qed

lemma mv_cong: "(\<And>j. j < N \<Longrightarrow> v j = w j) \<Longrightarrow> mv N A v i = mv N A w i"
  by (simp add: mv_def)

lemma mv_linear: "mv N A (\<lambda>j. a * v j + b * w j) i = a * mv N A v i + b * mv N A w i"
  by (simp add: mv_def sum.distrib sum_distrib_left algebra_simps)

lemma mv_eye: "i < N \<Longrightarrow> mv N (eye N) v i = v i"
proof -
  assume i: "i < N"
  have "mv N (eye N) v i = (\<Sum>j<N. if j = i then v i else 0)"
    unfolding mv_def using i by (intro sum.cong) (auto simp: eye_def)
  then show ?thesis using i by simp
qed

lemma mv_product:
  assumes "i < N"
  shows "mv N (mk_mat N N (\<lambda>i j. \<Sum>k<N. P ! i ! k * Q ! k ! j)) v i = mv N P (mv N Q v) i"
proof -
  have "mv N (mk_mat N N (\<lambda>i j. \<Sum>k<N. P ! i ! k * Q ! k ! j)) v i
        = (\<Sum>j<N. \<Sum>k<N. P ! i ! k * Q ! k ! j * v j)"
    unfolding mv_def using assms by (intro sum.cong) (simp_all add: sum_distrib_right)
  also have "\<dots> = (\<Sum>k<N. \<Sum>j<N. P ! i ! k * Q ! k ! j * v j)"
    by (rule sum.swap)
  also have "\<dots> = mv N P (mv N Q v) i"
    unfolding mv_def by (simp add: sum_distrib_left mult.assoc)
  finally show ?thesis .
qed

lemma mv_matmul:
  assumes "is_mat N N P" "is_mat N N Q" "0 < N" "matmul P Q = Inr R" "i < N"
  shows "mv N R v i = mv N P (mv N Q v) i"
proof -
  have "R = mk_mat N N (\<lambda>i j. \<Sum>k<N. P ! i ! k * Q ! k ! j)"
    using assms(4) unfolding matmul_square [OF assms(1,2,3)] by simp
  then show ?thesis using mv_product [OF assms(5)] by simp
qed

lemma is_mat_pw: "is_mat N N (pw N A l)"
  by (cases l) (simp_all add: is_mat_eye)

lemma matrix_power_pw:
  assumes "is_mat N N A" "0 < N"
  shows "matrix_power A l = Inr (pw N A l)"
proof (induction l)
  case 0
  then show ?case using assms by (simp add: is_mat_nrows is_mat_square_ncols)
next
  case (Suc l)
  then show ?case
    by (simp add: matmul_square [OF is_mat_pw assms(1) assms(2)])
qed

lemma mv_pw_Suc: "i < N \<Longrightarrow> mv N (pw N A (Suc l)) v i = mv N (pw N A l) (mv N A v) i"
  by (simp add: mv_product)

lemma power_series_telescope:
  assumes w: "\<And>i. i < N \<Longrightarrow> w i = z * mv N A w i + bb i"
    and i: "i < N"
  shows "(\<Sum>l<L. z ^ l * mv N (pw N A l) bb i) = w i - z ^ L * mv N (pw N A L) w i"
proof (induction L)
  case 0
  then show ?case using i by (simp add: mv_eye)
next
  case (Suc L)
  have "mv N (pw N A L) bb i = mv N (pw N A L) (\<lambda>j. 1 * w j + (- z) * mv N A w j) i"
    by (rule mv_cong) (use w in \<open>simp add: algebra_simps\<close>)
  also have "\<dots> = mv N (pw N A L) w i - z * mv N (pw N A (Suc L)) w i"
    unfolding mv_linear using i by (simp add: mv_pw_Suc del: pw.simps)
  finally have e: "mv N (pw N A L) bb i = mv N (pw N A L) w i - z * mv N (pw N A (Suc L)) w i" .
  have "z ^ L * mv N (pw N A L) bb i
                = z ^ L * mv N (pw N A L) w i - z ^ Suc L * mv N (pw N A (Suc L)) w i"
    unfolding e by (simp add: right_diff_distrib del: pw.simps)
  with Suc show ?case by (simp del: pw.simps)
qed

lemma matmul_value:
  assumes "is_mat r n A" "is_mat n c B" "0 < r" "0 < n"
  shows "matmul A B = Inr (mk_mat r c (\<lambda>i j. \<Sum>k<n. A ! i ! k * B ! k ! j))"
  using assms by (simp add: matmul_def is_mat_nrows is_mat_ncols)

lemma reshape_scalar_mk_mat: "reshape_scalar (mk_mat 1 1 h) = Inr (h 0 0)"
  by (simp add: reshape_scalar_def mk_mat_def)

lemma sequence_err_map:
  assumes "\<And>l. l < L \<Longrightarrow> f l = Inr (g l)"
  shows "sequence_err (map f [0..<L]) = Inr (map g [0..<L])"
proof -
  have "map f [0..<L] = map Inr (map g [0..<L])" using assms by simp
  then show ?thesis by (simp only: sequence_err_Inr)
qed

lemma K_conv_value:
  assumes A: "is_mat N N A" and B: "is_mat N 1 B" and C: "is_mat 1 N C" and N: "0 < N"
  shows "K_conv A B C L = Inr (map (kernel_entry N A B C) [0..<L])"
  unfolding K_conv_def
proof (rule sequence_err_map)
  fix l
  let ?P = "pw N A l"
  let ?CP = "mk_mat 1 N (\<lambda>i j. \<Sum>k<N. C ! i ! k * ?P ! k ! j)"
  have 1: "matmul C ?P = Inr ?CP"
    by (rule matmul_value [OF C is_mat_pw _ N]) simp
  have 2: "matmul ?CP B = Inr (mk_mat 1 1 (\<lambda>i j. \<Sum>k<N. ?CP ! i ! k * B ! k ! j))"
    by (rule matmul_value [OF is_mat_mk_mat B _ N]) simp
  have "(\<Sum>k<N. ?CP ! 0 ! k * B ! k ! 0) = (\<Sum>k<N. \<Sum>i<N. C ! 0 ! i * ?P ! i ! k * B ! k ! 0)"
    by (rule sum.cong) (simp_all add: sum_distrib_right)
  also have "\<dots> = (\<Sum>i<N. \<Sum>k<N. C ! 0 ! i * ?P ! i ! k * B ! k ! 0)"
    by (rule sum.swap)
  also have "\<dots> = kernel_entry N A B C l"
    unfolding kernel_entry_def mv_def by (simp add: sum_distrib_left mult.assoc)
  finally have 3: "(\<Sum>k<N. ?CP ! 0 ! k * B ! k ! 0) = kernel_entry N A B C l" .
  show "bind_err (matrix_power A l) (\<lambda>P. bind_err (matmul C P) (\<lambda>CP. bind_err (matmul CP B) reshape_scalar))
        = Inr (kernel_entry N A B C l)"
    unfolding matrix_power_pw [OF A N] bind_err_Inr 1 2 reshape_scalar_mk_mat 3 ..
qed

lemma kernel_generating_function:
  assumes w: "\<And>i. i < N \<Longrightarrow> w i = z * mv N A w i + B ! i ! 0"
    and zL: "z ^ L = 1"
  shows "(\<Sum>l<L. kernel_entry N A B C l * z ^ l)
         = (\<Sum>j<N. (\<Sum>i<N. C ! 0 ! i * ((if i = j then 1 else 0) - pw N A L ! i ! j)) * w j)"
proof -
  have "(\<Sum>l<L. kernel_entry N A B C l * z ^ l)
        = (\<Sum>l<L. \<Sum>i<N. C ! 0 ! i * (z ^ l * mv N (pw N A l) (\<lambda>j. B ! j ! 0) i))"
    unfolding kernel_entry_def
    by (rule sum.cong [OF refl]) (simp add: sum_distrib_left mult_ac)
  also have "\<dots> = (\<Sum>i<N. \<Sum>l<L. C ! 0 ! i * (z ^ l * mv N (pw N A l) (\<lambda>j. B ! j ! 0) i))"
    by (rule sum.swap)
  also have "\<dots> = (\<Sum>i<N. C ! 0 ! i * (w i - z ^ L * mv N (pw N A L) w i))"
    by (rule sum.cong [OF refl])
       (simp add: sum_distrib_left [symmetric] power_series_telescope [of N w z A "\<lambda>j. B ! j ! 0"] w)
  also have "\<dots> = (\<Sum>i<N. C ! 0 ! i * (\<Sum>j<N. ((if i = j then 1 else 0) - pw N A L ! i ! j) * w j))"
  proof (rule sum.cong [OF refl])
    fix i assume "i \<in> {..<N}"
    then have i: "i < N" by simp
    have "(\<Sum>j<N. ((if i = j then 1 else 0) - pw N A L ! i ! j) * w j)
          = (\<Sum>j<N. (if j = i then w i else 0)) - mv N (pw N A L) w i"
      unfolding mv_def sum_subtractf [symmetric]
      by (rule sum.cong) (auto simp: algebra_simps)
    also have "\<dots> = w i - z ^ L * mv N (pw N A L) w i"
      using i by (simp add: zL)
    finally show "C ! 0 ! i * (w i - z ^ L * mv N (pw N A L) w i)
                  = C ! 0 ! i * (\<Sum>j<N. ((if i = j then 1 else 0) - pw N A L ! i ! j) * w j)"
      by simp
  qed
  also have "\<dots> = (\<Sum>i<N. \<Sum>j<N. C ! 0 ! i * ((if i = j then 1 else 0) - pw N A L ! i ! j) * w j)"
    by (simp add: sum_distrib_left mult.assoc)
  also have "\<dots> = (\<Sum>j<N. \<Sum>i<N. C ! 0 ! i * ((if i = j then 1 else 0) - pw N A L ! i ! j) * w j)"
    by (rule sum.swap)
  finally show ?thesis by (simp add: sum_distrib_right)
qed

lemma dplr_resolvent:
  fixes Lambda p q bl ul :: "complex list"
  assumes len: "length Lambda = N"
    and A: "\<And>i j. i < N \<Longrightarrow> j < N \<Longrightarrow>
              A ! i ! j = (if i = j then Lambda ! i else 0) - p ! i * cnj (q ! j)"
    and poles: "\<And>i. i < N \<Longrightarrow> g \<noteq> Lambda ! i"
    and k11: "1 + cauchy_k g Lambda (map cnj q) p \<noteq> 0"
    and lq: "length q = N"
  defines "x \<equiv> \<lambda>i. (bl ! i - p ! i * (cauchy_k g Lambda (map cnj q) bl
                                          / (1 + cauchy_k g Lambda (map cnj q) p)))
                      / (g - Lambda ! i)"
  shows "\<And>i. i < N \<Longrightarrow> mv N A x i = g * x i - bl ! i"
    and "(\<Sum>i<N. ul ! i * x i)
         = cauchy_k g Lambda ul bl
           - cauchy_k g Lambda ul p * (1 / (1 + cauchy_k g Lambda (map cnj q) p))
             * cauchy_k g Lambda (map cnj q) bl"
proof -
  let ?d = "\<lambda>i. g - Lambda ! i"
  let ?qc = "\<lambda>i. cnj (q ! i)"
  have kq: "cauchy_k g Lambda (map cnj q) v = (\<Sum>i<N. ?qc i * v ! i / ?d i)" for v
    unfolding cauchy_k_def len by (rule sum.cong) (simp_all add: lq)
  have ku: "cauchy_k g Lambda ul v = (\<Sum>i<N. ul ! i * v ! i / ?d i)" for v
    unfolding cauchy_k_def len ..
  have d: "\<And>i. i < N \<Longrightarrow> ?d i \<noteq> 0" using poles by simp
  have k11': "1 + (\<Sum>i<N. ?qc i * p ! i / ?d i) \<noteq> 0" using k11 unfolding kq .
  have x: "x i = (bl ! i - p ! i * ((\<Sum>i<N. ?qc i * bl ! i / ?d i)
                                         / (1 + (\<Sum>i<N. ?qc i * p ! i / ?d i)))) / ?d i" for i
    unfolding x_def kq ..
  have wb1: "?d i * x i + p ! i * (\<Sum>j<N. ?qc j * x j) = bl ! i" if "i < N" for i
    by (rule woodbury_vector(1) [where N = N and d = ?d and qc = ?qc and p = "\<lambda>i. p ! i"
          and b = "\<lambda>i. bl ! i" and x = x, OF d k11' x that])
  have wb2: "(\<Sum>i<N. v i * x i)
         = (\<Sum>i<N. v i * bl ! i / ?d i)
           - (\<Sum>i<N. v i * p ! i / ?d i) * (1 / (1 + (\<Sum>i<N. ?qc i * p ! i / ?d i)))
             * (\<Sum>i<N. ?qc i * bl ! i / ?d i)" for v
    by (rule woodbury_vector(2) [where N = N and d = ?d and qc = ?qc and p = "\<lambda>i. p ! i"
          and b = "\<lambda>i. bl ! i" and x = x, OF d k11' x])
  show "mv N A x i = g * x i - bl ! i" if i: "i < N" for i
  proof -
    have "mv N A x i = (\<Sum>j<N. (if j = i then Lambda ! i * x i else 0) - p ! i * (?qc j * x j))"
      unfolding mv_def using i by (intro sum.cong) (auto simp: A algebra_simps)
    also have "\<dots> = Lambda ! i * x i - p ! i * (\<Sum>j<N. ?qc j * x j)"
      using i by (simp add: sum_subtractf sum_distrib_left)
    also have "p ! i * (\<Sum>j<N. ?qc j * x j) = bl ! i - ?d i * x i"
      using wb1 [OF i] by (simp add: algebra_simps)
    finally show ?thesis by (simp add: algebra_simps)
  qed
  show "(\<Sum>i<N. ul ! i * x i)
         = cauchy_k g Lambda ul bl
           - cauchy_k g Lambda ul p * (1 / (1 + cauchy_k g Lambda (map cnj q) p))
             * cauchy_k g Lambda (map cnj q) bl"
    unfolding kq ku by (rule wb2)
qed

lemma discretized_fixed_point:
  fixes s z :: complex
  assumes A: "is_mat N N A" and N: "0 < N" and s: "s \<noteq> 0" and z: "1 + z \<noteq> 0"
    and M: "is_mat N N M" and MX: "matmul M (disc_X N A s) = Inr (eye N)"
    and Aw: "\<And>i. i < N \<Longrightarrow> mv N A w i = (2 / s) * ((1 - z) / (1 + z)) * w i - 2 / (1 + z) * b i"
    and i: "i < N"
  shows "w i = z * mv N (mk_mat N N (\<lambda>i j. \<Sum>k<N. M ! i ! k * ((if k = j then 1 else 0) + s / 2 * A ! k ! j))) w i
               + (\<Sum>k<N. (M ! i ! k * s) * b k)"
proof -
  let ?X = "disc_X N A s" and ?Y = "disc_Y N A s"
  have Xw: "mv N ?X w j = w j - s / 2 * mv N A w j" if "j < N" for j
  proof -
    have "mv N ?X w j = (\<Sum>k<N. (if k = j then w j else 0) - s / 2 * (A ! j ! k * w k))"
      unfolding mv_def using that by (intro sum.cong) (auto simp: disc_X_def algebra_simps)
    then show ?thesis using that by (simp add: sum_subtractf sum_distrib_left mv_def)
  qed
  have Yw: "mv N ?Y w j = w j + s / 2 * mv N A w j" if "j < N" for j
  proof -
    have "mv N ?Y w j = (\<Sum>k<N. (if k = j then w j else 0) + s / 2 * (A ! j ! k * w k))"
      unfolding mv_def using that by (intro sum.cong) (auto simp: disc_Y_def algebra_simps)
    then show ?thesis using that by (simp add: sum.distrib sum_distrib_left mv_def)
  qed
  have id: "mv N ?X w j = z * mv N ?Y w j + s * b j" if "j < N" for j
    unfolding Xw [OF that] Yw [OF that]
    by (rule bilinear_vector_identity [OF s z refl refl Aw [OF that]])
  have "mk_mat N N (\<lambda>i j. \<Sum>k<N. M ! i ! k * ((if k = j then 1 else 0) + s / 2 * A ! k ! j))
        = mk_mat N N (\<lambda>i j. \<Sum>k<N. M ! i ! k * ?Y ! k ! j)"
    by (intro mk_mat_cong sum.cong refl) (simp add: disc_Y_def)
  then have Abar: "mv N (mk_mat N N (\<lambda>i j. \<Sum>k<N. M ! i ! k * ((if k = j then 1 else 0) + s / 2 * A ! k ! j))) w i
              = mv N M (mv N ?Y w) i"
    using mv_product [OF i, of M ?Y w] by simp
  have "w i = mv N (eye N) w i" using i by (simp add: mv_eye)
  also have "\<dots> = mv N M (mv N ?X w) i"
    by (rule mv_matmul [OF M _ N MX i]) (simp add: disc_X_def)
  also have "\<dots> = mv N M (\<lambda>j. z * mv N ?Y w j + s * b j) i"
    by (rule mv_cong) (rule id)
  also have "\<dots> = z * mv N M (mv N ?Y w) i + s * mv N M b i"
    by (rule mv_linear)
  also have "s * mv N M b i = (\<Sum>k<N. (M ! i ! k * s) * b k)"
    by (simp add: mv_def sum_distrib_left mult_ac)
  finally show ?thesis by (simp only: Abar)
qed

section \<open>The generating function of the naive kernel\<close>

text \<open>
  Over exact numbers, with \<open>A = diag(\<Lambda>) - p q\<^sup>*\<close>, a real \<open>C\<close> and \<open>Ct\<close> formed from
  \<open>I - Abar\<^sup>L\<close> as \<^verbatim>\<open>S4Layer.setup\<close> forms it, the function returned by \<^verbatim>\<open>K_gen_DPLR\<close> agrees
  with the generating function of the naive kernel \<^verbatim>\<open>K_conv(Abar, Bbar, C, L)\<close> at every
  \<open>L\<close>-th root of unity that is not one of its poles.  When no root is a pole,
  \<^verbatim>\<open>convFromGen\<close> returns the real parts of the naive kernel.
\<close>

lemma ravel_row:
  assumes "is_mat 1 N C"
  shows "ravel C = C ! 0"
proof -
  from assms obtain r where "C = [r]"
    by (cases C) (auto simp: is_mat_def)
  then show ?thesis by (simp add: ravel_def)
qed

lemma is_mat_dplr_matrix: "length Lambda = N \<Longrightarrow> is_mat N N (dplr_matrix Lambda p q)"
  by (auto simp: dplr_matrix_def)

lemma unity_root_power_L_k: "0 < L \<Longrightarrow> (unity_root L ^ k) ^ L = 1"
  by (metis mult.commute power_mult power_one unity_root_power_L)

lemma cnj_real: "Im c = 0 \<Longrightarrow> cnj c = c"
  by (simp add: complex_eq_iff)

lemma Ct_value:
  assumes P: "is_mat N N P" and C: "is_mat 1 N C" and N: "0 < N"
    and Creal: "\<And>j. j < N \<Longrightarrow> Im (C ! 0 ! j) = 0"
  shows "\<exists>IP Ct. bcast2 (-) (eye N) P = Inr IP \<and> matvec (conj_T IP) (ravel C) = Inr Ct \<and>
              length Ct = N \<and>
              (\<forall>j<N. cnj (Ct ! j) = (\<Sum>i<N. C ! 0 ! i * ((if i = j then 1 else 0) - P ! i ! j)))"
proof -
  let ?IP = "mk_mat N N (\<lambda>i j. eye N ! i ! j - P ! i ! j) :: complex mat"
  let ?T = "mk_mat N N (\<lambda>i j. cnj (?IP ! j ! i))"
  let ?Ct = "map (\<lambda>i. \<Sum>k<N. ?T ! i ! k * C ! 0 ! k) [0..<N]"
  have 1: "bcast2 (-) (eye N) P = Inr ?IP"
    by (rule bcast2_square [OF is_mat_eye P])
  have 2: "conj_T ?IP = ?T" by (simp add: conj_T_def)
  have lenC: "length (C ! 0) = N" using is_mat_row [OF C, of 0] by simp
  have 3: "matvec ?T (ravel C) = Inr ?Ct"
    by (simp add: matvec_def ravel_row [OF C] lenC)
  have "cnj (?Ct ! j) = (\<Sum>i<N. C ! 0 ! i * ((if i = j then 1 else 0) - P ! i ! j))" if j: "j < N" for j
  proof -
    have "cnj (?Ct ! j) = (\<Sum>k<N. cnj (?T ! j ! k) * cnj (C ! 0 ! k))"
      using j by simp
    also have "\<dots> = (\<Sum>k<N. C ! 0 ! k * ((if k = j then 1 else 0) - P ! k ! j))"
      using j by (intro sum.cong) (auto simp: eye_def cnj_real [OF Creal])
    finally show ?thesis .
  qed
  then have "bcast2 (-) (eye N) P = Inr ?IP \<and> matvec (conj_T ?IP) (ravel C) = Inr ?Ct \<and>
             length ?Ct = N \<and>
             (\<forall>j<N. cnj (?Ct ! j) = (\<Sum>i<N. C ! 0 ! i * ((if i = j then 1 else 0) - P ! i ! j)))"
    using 1 3 unfolding 2 by simp
  then show ?thesis by blast
qed

lemma fast_path_regular_roots:
  fixes step :: real
  assumes N: "0 < N" and L: "0 < L" and step: "0 < step"
    and len: "length Lambda = N" "length p = N" "length q = N"
    and B: "is_mat N 1 B" and C: "is_mat 1 N C"
    and Creal: "\<forall>j<N. Im (C ! 0 ! j) = 0"
    and inv: "linalg_inv (disc_X N (dplr_matrix Lambda p q) (complex_of_real step)) = Finite M"
    and M: "is_mat N N M"
    and MX: "matmul M (disc_X N (dplr_matrix Lambda p q) (complex_of_real step)) = Inr (eye N)"
    and roots: "\<forall>k<L. 1 + unity_root L ^ k \<noteq> 0 \<and>
                  (\<forall>i<N. bilinear_g step (unity_root L ^ k) \<noteq> Lambda ! i) \<and>
                  1 + cauchy_k (bilinear_g step (unity_root L ^ k)) Lambda (map cnj q) p \<noteq> 0"
  shows "\<exists>Abar Bbar K P IP Ct.
           discretize linalg_inv (dplr_matrix Lambda p q) B C (complex_of_real step)
             = Inr (Finite Abar, Finite Bbar, C) \<and>
           K_conv Abar Bbar C L = Inr K \<and>
           matrix_power Abar L = Inr P \<and> bcast2 (-) (eye N) P = Inr IP \<and>
           matvec (conj_T IP) (ravel C) = Inr Ct \<and>
           convFromGen (K_gen_DPLR Lambda p q B Ct step) L = Inr (Finite (map Re K))"
proof -
  let ?A = "dplr_matrix Lambda p q"
  let ?s = "complex_of_real step"
  define Abar where "Abar = mk_mat N N (\<lambda>i j. \<Sum>k<N. M ! i ! k * ((if k = j then 1 else 0) + ?s / 2 * ?A ! k ! j))"
  define Bbar where "Bbar = mk_mat N 1 (\<lambda>i j. \<Sum>k<N. (M ! i ! k * ?s) * B ! k ! 0)"
  define K where "K = map (kernel_entry N Abar Bbar C) [0..<L]"
  have A: "is_mat N N ?A" by (rule is_mat_dplr_matrix [OF len(1)])
  have s: "?s \<noteq> 0" using step by simp
  have Abar: "is_mat N N Abar" by (simp add: Abar_def)
  have Bbar: "is_mat N 1 Bbar" by (simp add: Bbar_def)
  have disc: "discretize linalg_inv ?A B C ?s = Inr (Finite Abar, Finite Bbar, C)"
    unfolding Abar_def Bbar_def by (rule discretize_value [where linalg_inv = linalg_inv, OF A B N inv M MX])
  have Kc: "K_conv Abar Bbar C L = Inr K"
    unfolding K_def by (rule K_conv_value [OF Abar Bbar C N])
  have Kl: "length K = L" by (simp add: K_def)
  from Ct_value [OF is_mat_pw C N, of Abar L] Creal
  obtain IP Ct where IP: "bcast2 (-) (eye N) (pw N Abar L) = Inr IP"
    and Ct: "matvec (conj_T IP) (ravel C) = Inr Ct"
    and Ctl: "length Ct = N"
    and Ctv: "\<And>j. j < N \<Longrightarrow> cnj (Ct ! j) = (\<Sum>i<N. C ! 0 ! i * ((if i = j then 1 else 0) - pw N Abar L ! i ! j))"
    by auto
  have gen: "K_gen_DPLR Lambda p q B Ct step (unity_root L ^ k)
             = Inr (Finite (\<Sum>l<L. K ! l * (unity_root L ^ k) ^ l))" if k: "k < L" for k
  proof -
    let ?z = "unity_root L ^ k"
    let ?g = "bilinear_g step ?z"
    let ?cz = "bilinear_c ?z"
    from roots k have z: "1 + ?z \<noteq> 0" and poles: "\<forall>i<N. ?g \<noteq> Lambda ! i"
      and k11: "1 + cauchy_k ?g Lambda (map cnj q) p \<noteq> 0" by auto
    have val: "K_gen_DPLR Lambda p q B Ct step ?z
               = Inr (Finite (dplr_formula Lambda p q (ravel B) (map cnj Ct) step ?z))"
      by (rule K_gen_DPLR_value [OF len Ctl B step z poles k11])
    define x where "x = (\<lambda>i. (ravel B ! i - p ! i * (cauchy_k ?g Lambda (map cnj q) (ravel B)
                                          / (1 + cauchy_k ?g Lambda (map cnj q) p)))
                      / (?g - Lambda ! i))"
    define w where "w = (\<lambda>i. ?cz * x i)"
    have Aent: "?A ! i ! j = (if i = j then Lambda ! i else 0) - p ! i * cnj (q ! j)"
      if "i < N" "j < N" for i j
      using that by (simp add: dplr_matrix_def len)
    have pl: "\<And>i. i < N \<Longrightarrow> ?g \<noteq> Lambda ! i" using poles by simp
    have res1: "mv N ?A x i = ?g * x i - ravel B ! i" if "i < N" for i
      unfolding x_def by (rule dplr_resolvent(1) [OF len(1) Aent pl k11 len(3) that])
    have res2: "(\<Sum>i<N. map cnj Ct ! i * x i)
                = cauchy_k ?g Lambda (map cnj Ct) (ravel B)
                  - cauchy_k ?g Lambda (map cnj Ct) p * (1 / (1 + cauchy_k ?g Lambda (map cnj q) p))
                    * cauchy_k ?g Lambda (map cnj q) (ravel B)"
      unfolding x_def by (rule dplr_resolvent(2) [OF len(1) Aent pl k11 len(3)])
    have rB: "ravel B ! i = B ! i ! 0" if "i < N" for i
      using that by (simp add: ravel_column [OF B])
    have Aw: "mv N ?A w i = (2 / ?s) * ((1 - ?z) / (1 + ?z)) * w i - 2 / (1 + ?z) * B ! i ! 0"
      if "i < N" for i
    proof -
      have "mv N ?A w i = ?cz * mv N ?A x i"
        unfolding w_def mv_def by (simp add: sum_distrib_left mult_ac)
      also have "\<dots> = ?g * w i - ?cz * B ! i ! 0"
        by (simp add: res1 [OF that] rB [OF that] w_def algebra_simps)
      finally show ?thesis by (simp add: bilinear_g_def bilinear_c_def)
    qed
    have fp: "w i = ?z * mv N Abar w i + Bbar ! i ! 0" if "i < N" for i
    proof -
      have "w i = ?z * mv N Abar w i + (\<Sum>k<N. (M ! i ! k * ?s) * B ! k ! 0)"
        unfolding Abar_def
        by (rule discretized_fixed_point [OF A N s z M MX Aw that])
      then show ?thesis using that by (simp add: Bbar_def)
    qed
    have "(\<Sum>l<L. K ! l * ?z ^ l) = (\<Sum>l<L. kernel_entry N Abar Bbar C l * ?z ^ l)"
      by (rule sum.cong) (simp_all add: K_def)
    also have "\<dots> = (\<Sum>j<N. (\<Sum>i<N. C ! 0 ! i * ((if i = j then 1 else 0) - pw N Abar L ! i ! j)) * w j)"
      by (rule kernel_generating_function [OF fp unity_root_power_L_k [OF L]])
    also have "\<dots> = (\<Sum>j<N. ?cz * (map cnj Ct ! j * x j))"
      by (rule sum.cong) (simp_all add: Ctv [symmetric] Ctl w_def)
    also have "\<dots> = dplr_formula Lambda p q (ravel B) (map cnj Ct) step ?z"
      unfolding sum_distrib_left [symmetric] res2 by (simp add: dplr_formula_def Let_def)
    finally show ?thesis using val by simp
  qed
  have conv: "convFromGen (K_gen_DPLR Lambda p q B Ct step) L = Inr (Finite (map Re K))"
    by (rule convFromGen_samples [OF L Kl gen])
  from disc Kc matrix_power_pw [OF Abar N, of L] IP Ct conv show ?thesis by blast
qed

text \<open>
  For an even \<open>L\<close> the root \<open>- 1\<close> is sampled.  There \<open>1 + z = 0\<close>, and the function as coded
  divides by zero: with exact roots the sample is not finite.  The floating-point program
  samples the rounded value of \<open>exp (\<i> \<pi>)\<close> instead, which is not exactly \<open>- 1\<close>.
\<close>

lemma unity_root_half:
  assumes "0 < L" "even L"
  shows "unity_root L ^ (L div 2) = - 1"
proof -
  from assms obtain m where m: "L = 2 * m" "0 < m" by (auto elim: evenE)
  have "real (L div 2) * (2 * pi / real L) = pi"
    using m by (simp add: field_simps)
  then show ?thesis by (simp add: unity_root_def DeMoivre)
qed

lemma K_gen_DPLR_at_minus_one:
  assumes "length Lambda = N" "length p = N" "length q = N" "length Ct = N" "is_mat N 1 B"
    and "step \<noteq> 0"
  shows "K_gen_DPLR Lambda p q B Ct step (- 1) = Inr NonFinite"
proof -
  have rB: "length (ravel B) = N" using assms(5) by (simp add: ravel_column)
  have k: "bind_err (vbcast (*) a b) (\<lambda>v. cauchy_dot v NonFinite Lambda) = Inr NonFinite"
    if "length a = N" "length b = N" for a b :: "complex list"
    using that assms(1) by (simp add: vbcast_same_length cauchy_dot_def fl_bind_def)
  have g: "fl_map (\<lambda>r. (2 / complex_of_real step) * r) (fl_div (1 - (- 1)) (1 + (- 1))) = NonFinite"
    by (simp add: fl_map_def fl_bind_def fl_div_def)
  show ?thesis
    using assms(6) unfolding K_gen_DPLR_def Let_def fst_conv snd_conv g
    by (simp add: k assms rB fl_op2_def fl_bind_def fl_div_def)
qed

end
